theory Spec2Isabelle
  imports Main "HOL-Library.AList"
begin

section \<open>Values of the in-memory document store\<close>

text \<open>
  The store of \<^verbatim>\<open>src/backend/database.py\<close> holds JSON-like Python values:
  \<^verbatim>\<open>None\<close>, booleans, unbounded integers, strings, lists, and dictionaries with
  string keys. A dictionary is an association list in insertion order, which is the
  iteration order of a Python \<^verbatim>\<open>dict\<close>; its keys are distinct in every well-formed
  value. Floating-point numbers are outside the model. Values are trees: no list or
  dictionary object is shared between two places of one document.
\<close>

datatype pyval =
    PNone
  | PBool bool
  | PInt int
  | PStr string
  | PList "pyval list"
  | PDict "(string \<times> pyval) list"

type_synonym pydict = "(string \<times> pyval) list"

datatype error = KeyError | TypeError | AttributeError

subsection \<open>Python's operators on these values\<close>

text \<open>\<^verbatim>\<open>bool\<close> is a subclass of \<^verbatim>\<open>int\<close>: \<^verbatim>\<open>True == 1\<close> and \<^verbatim>\<open>False < 2\<close>.\<close>

fun num_of :: "pyval \<Rightarrow> int option" where
  "num_of (PBool b) = Some (if b then 1 else 0)"
| "num_of (PInt n) = Some n"
| "num_of _ = None"

text \<open>
  \<^verbatim>\<open>a == b\<close>. Numbers compare by value, strings and lists element by element,
  dictionaries by size and by the value under every key, whatever the order of the keys.
  Values of different kinds are unequal. The operator never raises on these values.
\<close>

fun py_eq :: "pyval \<Rightarrow> pyval \<Rightarrow> bool"
  and py_eq_list :: "pyval list \<Rightarrow> pyval list \<Rightarrow> bool"
  and py_eq_items :: "pydict \<Rightarrow> pydict \<Rightarrow> bool" where
  "py_eq PNone b = (b = PNone)"
| "py_eq (PBool x) b = (num_of b = Some (if x then 1 else 0))"
| "py_eq (PInt n) b = (num_of b = Some n)"
| "py_eq (PStr s) b = (b = PStr s)"
| "py_eq (PList xs) b = (case b of PList ys \<Rightarrow> py_eq_list xs ys | _ \<Rightarrow> False)"
| "py_eq (PDict kvs) b =
     (case b of PDict kws \<Rightarrow> length kvs = length kws \<and> py_eq_items kvs kws | _ \<Rightarrow> False)"
| "py_eq_list [] ys = (ys = [])"
| "py_eq_list (x # xs) ys = (case ys of [] \<Rightarrow> False | y # ys' \<Rightarrow> py_eq x y \<and> py_eq_list xs ys')"
| "py_eq_items [] kws = True"
| "py_eq_items ((k, v) # kvs) kws =
     (case map_of kws k of None \<Rightarrow> False | Some w \<Rightarrow> py_eq v w \<and> py_eq_items kvs kws)"

text \<open>\<^verbatim>\<open>a != b\<close> is the negation of \<^verbatim>\<open>a == b\<close> on these values.\<close>

definition py_ne :: "pyval \<Rightarrow> pyval \<Rightarrow> bool" where
  "py_ne a b = (\<not> py_eq a b)"

text \<open>Strings are ordered lexicographically by character code.\<close>

fun str_lt :: "string \<Rightarrow> string \<Rightarrow> bool" where
  "str_lt [] [] = False"
| "str_lt [] (d # ds) = True"
| "str_lt (c # cs) [] = False"
| "str_lt (c # cs) (d # ds) =
     (if c = d then str_lt cs ds else (of_char c :: nat) < of_char d)"

text \<open>
  \<^verbatim>\<open>a < b\<close>. Defined between two numbers, two strings and two lists (at the first
  position where the elements are unequal, those elements are compared; with no such
  position the shorter list is smaller). Every other pair raises \<^verbatim>\<open>TypeError\<close>.
\<close>

fun py_lt :: "pyval \<Rightarrow> pyval \<Rightarrow> error + bool"
  and py_lt_list :: "pyval list \<Rightarrow> pyval list \<Rightarrow> error + bool" where
  "py_lt PNone b = Inl TypeError"
| "py_lt (PBool x) b =
     (case num_of b of None \<Rightarrow> Inl TypeError | Some m \<Rightarrow> Inr ((if x then 1 else 0) < m))"
| "py_lt (PInt n) b = (case num_of b of None \<Rightarrow> Inl TypeError | Some m \<Rightarrow> Inr (n < m))"
| "py_lt (PStr s) b = (case b of PStr t \<Rightarrow> Inr (str_lt s t) | _ \<Rightarrow> Inl TypeError)"
| "py_lt (PList xs) b = (case b of PList ys \<Rightarrow> py_lt_list xs ys | _ \<Rightarrow> Inl TypeError)"
| "py_lt (PDict kvs) b = Inl TypeError"
| "py_lt_list [] ys = Inr (ys \<noteq> [])"
| "py_lt_list (x # xs) ys =
     (case ys of [] \<Rightarrow> Inr False
      | y # ys' \<Rightarrow> if py_eq x y then py_lt_list xs ys' else py_lt x y)"

text \<open>\<^verbatim>\<open>a > b\<close> is the reflected \<^verbatim>\<open>b < a\<close>.\<close>

definition py_gt :: "pyval \<Rightarrow> pyval \<Rightarrow> error + bool" where
  "py_gt a b = py_lt b a"

text \<open>\<^verbatim>\<open>s in t\<close> for two strings: \<open>s\<close> occurs in \<open>t\<close> as a contiguous piece.\<close>

fun is_substring :: "string \<Rightarrow> string \<Rightarrow> bool" where
  "is_substring s [] = (s = [])"
| "is_substring s (c # cs) = (take (length s) (c # cs) = s \<or> is_substring s cs)"

text \<open>\<^verbatim>\<open>item in xs\<close> for a list \<open>xs\<close>: some element equals the item.\<close>

definition py_in_list :: "pyval \<Rightarrow> pyval list \<Rightarrow> bool" where
  "py_in_list item xs = list_ex (\<lambda>x. py_eq x item) xs"

text \<open>Lists and dictionaries are unhashable.\<close>

fun hashable :: "pyval \<Rightarrow> bool" where
  "hashable (PList _) = False"
| "hashable (PDict _) = False"
| "hashable _ = True"

text \<open>
  \<^verbatim>\<open>item in container\<close>: membership in a list, the substring test in a string
  (the item must be a string), key membership in a dictionary (the item must be
  hashable); anything else is not a container.
\<close>

fun py_contains :: "pyval \<Rightarrow> pyval \<Rightarrow> error + bool" where
  "py_contains (PList xs) item = Inr (py_in_list item xs)"
| "py_contains (PStr t) item = (case item of PStr s \<Rightarrow> Inr (is_substring s t) | _ \<Rightarrow> Inl TypeError)"
| "py_contains (PDict kvs) item =
     (if hashable item then Inr (list_ex (\<lambda>k. py_eq (PStr k) item) (map fst kvs))
      else Inl TypeError)"
| "py_contains _ item = Inl TypeError"

text \<open>
  Iterating a value: a list gives its elements, a string its characters as strings of
  length one, a dictionary its keys; anything else is not iterable.
\<close>

fun py_iter :: "pyval \<Rightarrow> error + pyval list" where
  "py_iter (PList xs) = Inr xs"
| "py_iter (PStr s) = Inr (map (\<lambda>c. PStr [c]) s)"
| "py_iter (PDict kvs) = Inr (map (\<lambda>kv. PStr (fst kv)) kvs)"
| "py_iter _ = Inl TypeError"

text \<open>Truth value of a value, as \<^verbatim>\<open>or\<close> and \<^verbatim>\<open>not\<close> use it.\<close>

fun py_truthy :: "pyval \<Rightarrow> bool" where
  "py_truthy PNone = False"
| "py_truthy (PBool b) = b"
| "py_truthy (PInt n) = (n \<noteq> 0)"
| "py_truthy (PStr s) = (s \<noteq> [])"
| "py_truthy (PList xs) = (xs \<noteq> [])"
| "py_truthy (PDict kvs) = (kvs \<noteq> [])"

text \<open>\<^verbatim>\<open>isinstance(v, dict)\<close>.\<close>

fun is_dict :: "pyval \<Rightarrow> bool" where
  "is_dict (PDict _) = True"
| "is_dict _ = False"

section \<open>Path resolver\<close>

text \<open>\<^verbatim>\<open>dotted_key.split(".")\<close>: the pieces between the dots, at least one.\<close>

fun split_dot :: "string \<Rightarrow> string list" where
  "split_dot [] = [[]]"
| "split_dot (c # cs) =
     (if c = CHR ''.'' then [] # split_dot cs
      else (case split_dot cs of [] \<Rightarrow> [[c]] | p # ps \<Rightarrow> (c # p) # ps))"

text \<open>
  The loop of \<^verbatim>\<open>_get_nested_value\<close>: at each part, a value that is not a dictionary
  or lacks the part ends the walk with \<^verbatim>\<open>None\<close>.
\<close>

fun descend :: "pyval \<Rightarrow> string list \<Rightarrow> pyval" where
  "descend v [] = v"
| "descend v (part # parts) =
     (case v of
        PDict kvs \<Rightarrow> (case map_of kvs part of None \<Rightarrow> PNone | Some w \<Rightarrow> descend w parts)
      | _ \<Rightarrow> PNone)"

definition get_nested_value :: "pyval \<Rightarrow> string \<Rightarrow> pyval" where
  "get_nested_value document dotted_key = descend document (split_dot dotted_key)"

text \<open>
  The spec's reading of the resolver, for comparison: the walk either reaches a stored
  value or is absent.
\<close>

fun resolve :: "pyval \<Rightarrow> string list \<Rightarrow> pyval option" where
  "resolve v [] = Some v"
| "resolve v (part # parts) =
     (case v of
        PDict kvs \<Rightarrow> (case map_of kvs part of None \<Rightarrow> None | Some w \<Rightarrow> resolve w parts)
      | _ \<Rightarrow> None)"

definition resolve_path :: "pyval \<Rightarrow> string \<Rightarrow> pyval option" where
  "resolve_path document dotted_key = resolve document (split_dot dotted_key)"

section \<open>Query matcher\<close>

text \<open>
  One step of a sequence of checks each of which may raise, return \<^verbatim>\<open>False\<close> from
  the matcher, or fall through to the next check.
\<close>

definition and_then :: "error + bool \<Rightarrow> error + bool \<Rightarrow> error + bool" where
  "and_then r k = (case r of Inl e \<Rightarrow> Inl e | Inr ok \<Rightarrow> if ok then k else Inr False)"

text \<open>
  The \<^verbatim>\<open>$in\<close> test: for a list, \<^verbatim>\<open>any(item in actual for item in candidate_values)\<close>;
  otherwise \<^verbatim>\<open>actual in candidate_values\<close>.
\<close>

definition check_in :: "pyval \<Rightarrow> pyval \<Rightarrow> error + bool" where
  "check_in actual candidate_values =
     (case actual of
        PList xs \<Rightarrow>
          (case py_iter candidate_values of
             Inl e \<Rightarrow> Inl e
           | Inr items \<Rightarrow> Inr (list_ex (\<lambda>item. py_in_list item xs) items))
      | _ \<Rightarrow> py_contains candidate_values actual)"

text \<open>\<^verbatim>\<open>not (actual is None or actual < bound)\<close> and its mirror image.\<close>

definition check_gte :: "pyval \<Rightarrow> pyval \<Rightarrow> error + bool" where
  "check_gte actual bound =
     (if actual = PNone then Inr False
      else (case py_lt actual bound of Inl e \<Rightarrow> Inl e | Inr b \<Rightarrow> Inr (\<not> b)))"

definition check_lte :: "pyval \<Rightarrow> pyval \<Rightarrow> error + bool" where
  "check_lte actual bound =
     (if actual = PNone then Inr False
      else (case py_gt actual bound of Inl e \<Rightarrow> Inl e | Inr b \<Rightarrow> Inr (\<not> b)))"

text \<open>
  The body of the loop of \<^verbatim>\<open>_matches_query\<close> for one field: \<open>Inr True\<close> when the
  loop goes on to the next field, \<open>Inr False\<close> when the matcher returns \<^verbatim>\<open>False\<close>.
\<close>

definition field_ok :: "pyval \<Rightarrow> pyval \<Rightarrow> error + bool" where
  "field_ok actual expected =
     (case expected of
        PDict ops \<Rightarrow>
          and_then (case map_of ops ''$in'' of None \<Rightarrow> Inr True
                    | Some candidate_values \<Rightarrow> check_in actual candidate_values)
         (and_then (case map_of ops ''$gte'' of None \<Rightarrow> Inr True
                    | Some bound \<Rightarrow> check_gte actual bound)
                   (case map_of ops ''$lte'' of None \<Rightarrow> Inr True
                    | Some bound \<Rightarrow> check_lte actual bound))
      | _ \<Rightarrow> Inr (\<not> py_ne actual expected))"

text \<open>
  \<^verbatim>\<open>_matches_query\<close>: the fields of the query in order; the first failing field
  returns \<^verbatim>\<open>False\<close>, the first raising comparison raises. The empty query is the
  empty loop.
\<close>

fun matches_query :: "pyval \<Rightarrow> pydict \<Rightarrow> error + bool" where
  "matches_query document [] = Inr True"
| "matches_query document ((key, expected) # query) =
     and_then (field_ok (get_nested_value document key) expected)
              (matches_query document query)"

section \<open>Document store\<close>

text \<open>
  \<^verbatim>\<open>InMemoryCollection._documents\<close>: a dictionary from identifier to document, as
  the list of its items in iteration order. The state of the collection is passed in
  and returned.
\<close>

type_synonym collection = "(pyval \<times> pyval) list"

text \<open>
  \<^verbatim>\<open>copy.deepcopy\<close> of a tree-shaped value is the same tree; the store with
  object identities, where a copy is a new object, comes after the grouping query.
\<close>

definition deepcopy :: "pyval \<Rightarrow> pyval" where
  "deepcopy v = v"

text \<open>
  \<^verbatim>\<open>d[k] = v\<close> on a Python dictionary: an equal key keeps its place (and the key
  object stored first), a new key goes to the end.
\<close>

fun store_doc :: "pyval \<Rightarrow> 'd \<Rightarrow> (pyval \<times> 'd) list \<Rightarrow> (pyval \<times> 'd) list" where
  "store_doc k d [] = [(k, d)]"
| "store_doc k d ((k', d') # rest) =
     (if py_eq k' k then (k', d) # rest else (k', d') # store_doc k d rest)"

text \<open>\<^verbatim>\<open>document["_id"]\<close>: only a dictionary can be indexed by a string.\<close>

definition getitem_id :: "pyval \<Rightarrow> error + pyval" where
  "getitem_id document =
     (case document of
        PDict kvs \<Rightarrow> (case map_of kvs ''_id'' of None \<Rightarrow> Inl KeyError | Some i \<Rightarrow> Inr i)
      | _ \<Rightarrow> Inl TypeError)"

definition insert_one :: "collection \<Rightarrow> pyval \<Rightarrow> error + collection" where
  "insert_one documents document =
     (case getitem_id document of
        Inl e \<Rightarrow> Inl e
      | Inr i \<Rightarrow> if hashable i then Inr (store_doc i (deepcopy document) documents)
                else Inl TypeError)"

fun count_documents :: "collection \<Rightarrow> pydict \<Rightarrow> error + nat" where
  "count_documents [] query = Inr 0"
| "count_documents ((k, document) # rest) query =
     (case matches_query document query of
        Inl e \<Rightarrow> Inl e
      | Inr b \<Rightarrow> (case count_documents rest query of
                   Inl e \<Rightarrow> Inl e
                 | Inr n \<Rightarrow> Inr ((if b then 1 else 0) + n)))"

text \<open>\<^verbatim>\<open>find\<close> is a generator; the model is the list of everything it yields.\<close>

fun find :: "collection \<Rightarrow> pydict \<Rightarrow> error + pyval list" where
  "find [] query = Inr []"
| "find ((k, document) # rest) query =
     (case matches_query document query of
        Inl e \<Rightarrow> Inl e
      | Inr b \<Rightarrow> (case find rest query of
                   Inl e \<Rightarrow> Inl e
                 | Inr ds \<Rightarrow> Inr (if b then deepcopy document # ds else ds)))"

fun find_one :: "collection \<Rightarrow> pydict \<Rightarrow> error + pyval option" where
  "find_one [] query = Inr None"
| "find_one ((k, document) # rest) query =
     (case matches_query document query of
        Inl e \<Rightarrow> Inl e
      | Inr b \<Rightarrow> if b then Inr (Some (deepcopy document)) else find_one rest query)"

section \<open>Update executor\<close>

text \<open>
  \<^verbatim>\<open>values.append(value)\<close> and \<^verbatim>\<open>values.remove(value)\<close> change the list object
  that the path leads to, inside the stored document. On trees this is the replacement
  of the value at the end of the path; a path that does not resolve changes nothing.
\<close>

fun put :: "string list \<Rightarrow> pyval \<Rightarrow> pyval \<Rightarrow> pyval" where
  "put [] new v = new"
| "put (part # parts) new v =
     (case v of
        PDict kvs \<Rightarrow>
          (case map_of kvs part of
             None \<Rightarrow> v
           | Some w \<Rightarrow> PDict (AList.update part (put parts new w) kvs))
      | _ \<Rightarrow> v)"

definition set_nested_value :: "pyval \<Rightarrow> string \<Rightarrow> pyval \<Rightarrow> pyval" where
  "set_nested_value document dotted_key new = put (split_dot dotted_key) new document"

text \<open>\<^verbatim>\<open>values.remove(value)\<close>: the first element equal to the value goes.\<close>

fun remove_first :: "pyval \<Rightarrow> pyval list \<Rightarrow> pyval list" where
  "remove_first value [] = []"
| "remove_first value (x # xs) = (if py_eq x value then xs else x # remove_first value xs)"

text \<open>\<^verbatim>\<open>isinstance(v, list)\<close>.\<close>

fun is_list :: "pyval \<Rightarrow> bool" where
  "is_list (PList _) = True"
| "is_list _ = False"

text \<open>
  The bodies of the two loops over the pairs of an operator: the document and the flag
  \<^verbatim>\<open>modified\<close> before, and after.
\<close>

definition push_one :: "pyval \<Rightarrow> string \<Rightarrow> pyval \<Rightarrow> nat \<Rightarrow> pyval \<times> nat" where
  "push_one document field value modified =
     (case get_nested_value document field of
        PList values \<Rightarrow> (set_nested_value document field (PList (values @ [value])), 1)
      | _ \<Rightarrow> (document, modified))"

definition pull_one :: "pyval \<Rightarrow> string \<Rightarrow> pyval \<Rightarrow> nat \<Rightarrow> pyval \<times> nat" where
  "pull_one document field value modified =
     (case get_nested_value document field of
        PList values \<Rightarrow>
          if py_in_list value values
          then (set_nested_value document field (PList (remove_first value values)), 1)
          else (document, modified)
      | _ \<Rightarrow> (document, modified))"

fun push_pairs :: "pyval \<Rightarrow> pydict \<Rightarrow> nat \<Rightarrow> pyval \<times> nat" where
  "push_pairs document [] modified = (document, modified)"
| "push_pairs document ((field, value) # rest) modified =
     (case push_one document field value modified of
        (document', modified') \<Rightarrow> push_pairs document' rest modified')"

fun pull_pairs :: "pyval \<Rightarrow> pydict \<Rightarrow> nat \<Rightarrow> pyval \<times> nat" where
  "pull_pairs document [] modified = (document, modified)"
| "pull_pairs document ((field, value) # rest) modified =
     (case pull_one document field value modified of
        (document', modified') \<Rightarrow> pull_pairs document' rest modified')"

text \<open>
  The body of \<^verbatim>\<open>update_one\<close> for the matching document. \<^verbatim>\<open>.items()\<close> exists on
  dictionaries only. The document is changed in place, so what was pushed stays when a
  later step raises.
\<close>

definition apply_update :: "pyval \<Rightarrow> pydict \<Rightarrow> pyval \<times> (error + nat)" where
  "apply_update document update =
     (case (case map_of update ''$push'' of
              None \<Rightarrow> Inr (document, 0)
            | Some (PDict pairs) \<Rightarrow> Inr (push_pairs document pairs 0)
            | Some _ \<Rightarrow> Inl AttributeError) of
        Inl e \<Rightarrow> (document, Inl e)
      | Inr (document1, modified1) \<Rightarrow>
          (case map_of update ''$pull'' of
             None \<Rightarrow> (document1, Inr modified1)
           | Some (PDict pairs) \<Rightarrow>
               (case pull_pairs document1 pairs modified1 of
                  (document2, modified2) \<Rightarrow> (document2, Inr modified2))
           | Some _ \<Rightarrow> (document1, Inl AttributeError)))"

text \<open>
  \<^verbatim>\<open>update_one\<close>: the scan stops at the first matching document. The assignment
  \<^verbatim>\<open>self._documents[identifier] = document\<close> stores the object that is already there.
\<close>

fun update_one :: "collection \<Rightarrow> pydict \<Rightarrow> pydict \<Rightarrow> collection \<times> (error + nat)" where
  "update_one [] query update = ([], Inr 0)"
| "update_one ((identifier, document) # rest) query update =
     (case matches_query document query of
        Inl e \<Rightarrow> ((identifier, document) # rest, Inl e)
      | Inr b \<Rightarrow>
          if b then (case apply_update document update of
                       (document', r) \<Rightarrow> ((identifier, document') # rest, r))
          else (case update_one rest query update of
                  (rest', r) \<Rightarrow> ((identifier, document) # rest', r)))"

section \<open>Grouping query\<close>

text \<open>
  \<^verbatim>\<open>days.add(day)\<close> on a set: an unhashable value raises, an equal element is already
  there. The set is the list of its elements in the order they were added.
\<close>

fun add_days :: "pyval list \<Rightarrow> pyval list \<Rightarrow> error + pyval list" where
  "add_days days [] = Inr days"
| "add_days days (day # rest) =
     (if hashable day
      then add_days (if py_in_list day days then days else days @ [day]) rest
      else Inl TypeError)"

text \<open>\<^verbatim>\<open>_get_nested_value(document, "schedule_details.days") or []\<close>, iterated.\<close>

definition days_of :: "pyval \<Rightarrow> error + pyval list" where
  "days_of document =
     (let v = get_nested_value document ''schedule_details.days''
      in if py_truthy v then py_iter v else Inr [])"

fun collect_days :: "collection \<Rightarrow> pyval list \<Rightarrow> error + pyval list" where
  "collect_days [] days = Inr days"
| "collect_days ((k, document) # rest) days =
     (case days_of document of
        Inl e \<Rightarrow> Inl e
      | Inr items \<Rightarrow>
          (case add_days days items of
             Inl e \<Rightarrow> Inl e
           | Inr days' \<Rightarrow> collect_days rest days'))"

text \<open>
  \<^verbatim>\<open>sorted\<close> compares with \<^verbatim>\<open><\<close> only and raises when a comparison raises. It is
  modelled by insertion into a sorted list; on distinct values that are all comparable
  with each other every sorting algorithm returns the same list.
\<close>

fun insort_py :: "pyval \<Rightarrow> pyval list \<Rightarrow> error + pyval list" where
  "insort_py x [] = Inr [x]"
| "insort_py x (y # ys) =
     (case py_lt x y of
        Inl e \<Rightarrow> Inl e
      | Inr b \<Rightarrow> if b then Inr (x # y # ys)
                else (case insort_py x ys of Inl e \<Rightarrow> Inl e | Inr r \<Rightarrow> Inr (y # r)))"

fun sorted_py :: "pyval list \<Rightarrow> error + pyval list" where
  "sorted_py [] = Inr []"
| "sorted_py (x # xs) = (case sorted_py xs of Inl e \<Rightarrow> Inl e | Inr r \<Rightarrow> insort_py x r)"

text \<open>\<^verbatim>\<open>aggregate\<close> is a generator too; the pipeline is never read.\<close>

definition aggregate :: "collection \<Rightarrow> pyval list \<Rightarrow> error + pyval list" where
  "aggregate documents pipeline =
     (case collect_days documents [] of
        Inl e \<Rightarrow> Inl e
      | Inr days \<Rightarrow>
          (case sorted_py days of
             Inl e \<Rightarrow> Inl e
           | Inr ds \<Rightarrow> Inr (map (\<lambda>day. PDict [(''_id'', day)]) ds)))"

section \<open>The store with object identities\<close>

text \<open>
  Python lists and dictionaries are objects: two references may lead to the same list,
  and a change made through one is seen through the other. To state that the store
  shares no object with its callers, the heap is explicit here: a list of objects, the
  address of an object being its index, and allocation appending at the end. A value is
  a scalar or a reference to a list or dictionary object.
\<close>

type_synonym addr = nat

datatype hval = HNone | HBool bool | HInt int | HStr string | HRef addr

datatype hobj = HList "hval list" | HDict "(string \<times> hval) list"

type_synonym heap = "hobj list"

text \<open>
  The references an object holds, and the addresses that can be reached from a value:
  these are the objects a caller can change who holds the value.
\<close>

fun refs_of :: "hobj \<Rightarrow> hval list" where
  "refs_of (HList vs) = vs"
| "refs_of (HDict kvs) = map snd kvs"

inductive_set reach :: "heap \<Rightarrow> hval \<Rightarrow> addr set" for h :: heap and v :: hval where
  root: "v = HRef a \<Longrightarrow> a \<in> reach h v"
| step: "a \<in> reach h v \<Longrightarrow> a < length h \<Longrightarrow> HRef b \<in> set (refs_of (h ! a)) \<Longrightarrow> b \<in> reach h v"

text \<open>
  The tree a value stands for. Reading follows references, so it takes fuel, one unit
  for each reference followed; the number of objects of the heap is enough fuel for every
  value that is a finite tree (\<open>read_tree_complete\<close> below), and a value through which
  reading does not end (a cycle) has no tree.
\<close>

fun read :: "nat \<Rightarrow> heap \<Rightarrow> hval \<Rightarrow> pyval option"
  and read_list :: "nat \<Rightarrow> heap \<Rightarrow> hval list \<Rightarrow> pyval list option"
  and read_items :: "nat \<Rightarrow> heap \<Rightarrow> (string \<times> hval) list \<Rightarrow> pydict option" where
  "read n h HNone = Some PNone"
| "read n h (HBool b) = Some (PBool b)"
| "read n h (HInt i) = Some (PInt i)"
| "read n h (HStr s) = Some (PStr s)"
| "read 0 h (HRef a) = None"
| "read (Suc n) h (HRef a) =
     (if a < length h
      then (case h ! a of
              HList vs \<Rightarrow> map_option PList (read_list n h vs)
            | HDict kvs \<Rightarrow> map_option PDict (read_items n h kvs))
      else None)"
| "read_list n h [] = Some []"
| "read_list n h (v # vs) =
     (case read n h v of None \<Rightarrow> None | Some t \<Rightarrow> map_option ((#) t) (read_list n h vs))"
| "read_items n h [] = Some []"
| "read_items n h ((k, v) # kvs) =
     (case read n h v of
        None \<Rightarrow> None
      | Some t \<Rightarrow> map_option ((#) (k, t)) (read_items n h kvs))"

definition read_tree :: "heap \<Rightarrow> hval \<Rightarrow> pyval option" where
  "read_tree h v = read (length h) h v"

text \<open>
  Building the objects of a tree: one new object for each list and each dictionary, the
  parts before the whole.
\<close>

fun alloc :: "heap \<Rightarrow> pyval \<Rightarrow> heap \<times> hval"
  and alloc_list :: "heap \<Rightarrow> pyval list \<Rightarrow> heap \<times> hval list"
  and alloc_items :: "heap \<Rightarrow> pydict \<Rightarrow> heap \<times> (string \<times> hval) list" where
  "alloc h PNone = (h, HNone)"
| "alloc h (PBool b) = (h, HBool b)"
| "alloc h (PInt i) = (h, HInt i)"
| "alloc h (PStr s) = (h, HStr s)"
| "alloc h (PList xs) =
     (case alloc_list h xs of (h', vs) \<Rightarrow> (h' @ [HList vs], HRef (length h')))"
| "alloc h (PDict kts) =
     (case alloc_items h kts of (h', kvs) \<Rightarrow> (h' @ [HDict kvs], HRef (length h')))"
| "alloc_list h [] = (h, [])"
| "alloc_list h (x # xs) =
     (case alloc h x of (h1, v) \<Rightarrow>
        (case alloc_list h1 xs of (h2, vs) \<Rightarrow> (h2, v # vs)))"
| "alloc_items h [] = (h, [])"
| "alloc_items h ((k, x) # kts) =
     (case alloc h x of (h1, v) \<Rightarrow>
        (case alloc_items h1 kts of (h2, kvs) \<Rightarrow> (h2, (k, v) # kvs)))"

text \<open>
  \<^verbatim>\<open>copy.deepcopy\<close> belongs to the Python library, not to this repository. It is
  modelled on tree-shaped values, where it builds a new object for every list and
  dictionary of the value; \<open>None\<close> stands for a value that is not a finite tree, about
  which the model says nothing. An object that occurs twice in one value is copied twice
  here, once by the library.
\<close>

definition deepcopy_h :: "heap \<Rightarrow> hval \<Rightarrow> (heap \<times> hval) option" where
  "deepcopy_h h v = (case read_tree h v of None \<Rightarrow> None | Some t \<Rightarrow> Some (alloc h t))"

text \<open>
  The store maps identifiers, which are scalars, to references to the stored documents.
  \<^verbatim>\<open>insert_one\<close> evaluates the right-hand side \<^verbatim>\<open>copy.deepcopy(document)\<close> first,
  then \<^verbatim>\<open>document["_id"]\<close>, then stores the copy.
\<close>

type_synonym hstore = "(pyval \<times> hval) list"

definition getitem_id_h :: "heap \<Rightarrow> hval \<Rightarrow> error + hval" where
  "getitem_id_h h document =
     (case document of
        HRef a \<Rightarrow>
          (if a < length h
           then (case h ! a of
                   HDict kvs \<Rightarrow>
                     (case map_of kvs ''_id'' of None \<Rightarrow> Inl KeyError | Some i \<Rightarrow> Inr i)
                 | HList vs \<Rightarrow> Inl TypeError)
           else Inl TypeError)
      | _ \<Rightarrow> Inl TypeError)"

fun scalar_of :: "hval \<Rightarrow> pyval option" where
  "scalar_of HNone = Some PNone"
| "scalar_of (HBool b) = Some (PBool b)"
| "scalar_of (HInt i) = Some (PInt i)"
| "scalar_of (HStr s) = Some (PStr s)"
| "scalar_of (HRef a) = None"

definition insert_one_h :: "heap \<Rightarrow> hstore \<Rightarrow> hval \<Rightarrow> (error + heap \<times> hstore) option" where
  "insert_one_h h documents document =
     (case deepcopy_h h document of
        None \<Rightarrow> None
      | Some (h', c) \<Rightarrow>
          Some (case getitem_id_h h' document of
                  Inl e \<Rightarrow> Inl e
                | Inr i \<Rightarrow>
                    (case scalar_of i of
                       None \<Rightarrow> Inl TypeError
                     | Some k \<Rightarrow> Inr (h', store_doc k c documents))))"

text \<open>
  \<^verbatim>\<open>find_one\<close> and \<^verbatim>\<open>find\<close> on the heap. The matcher only reads the document, so
  it is applied to the tree of the document; every match is copied, and the reference to
  the copy is what the caller gets.
\<close>

fun find_one_h :: "heap \<Rightarrow> hstore \<Rightarrow> pydict \<Rightarrow> (error + heap \<times> hval option) option" where
  "find_one_h h [] query = Some (Inr (h, None))"
| "find_one_h h ((k, document) # rest) query =
     (case read_tree h document of
        None \<Rightarrow> None
      | Some t \<Rightarrow>
          (case matches_query t query of
             Inl e \<Rightarrow> Some (Inl e)
           | Inr b \<Rightarrow>
               if b then (case deepcopy_h h document of
                            None \<Rightarrow> None
                          | Some (h', c) \<Rightarrow> Some (Inr (h', Some c)))
               else find_one_h h rest query))"

fun find_h :: "heap \<Rightarrow> hstore \<Rightarrow> pydict \<Rightarrow> (error + heap \<times> hval list) option" where
  "find_h h [] query = Some (Inr (h, []))"
| "find_h h ((k, document) # rest) query =
     (case read_tree h document of
        None \<Rightarrow> None
      | Some t \<Rightarrow>
          (case matches_query t query of
             Inl e \<Rightarrow> Some (Inl e)
           | Inr b \<Rightarrow>
               if b then (case deepcopy_h h document of
                            None \<Rightarrow> None
                          | Some (h', c) \<Rightarrow>
                              (case find_h h' rest query of
                                 None \<Rightarrow> None
                               | Some (Inl e) \<Rightarrow> Some (Inl e)
                               | Some (Inr (h'', cs)) \<Rightarrow> Some (Inr (h'', c # cs))))
               else find_h h rest query))"

section \<open>Notions used in the statements\<close>




text \<open>The identifiers of the collection in iteration order, and whether one equals \<open>i\<close>.\<close>

definition ids :: "collection \<Rightarrow> pyval list" where
  "ids documents = map fst documents"

definition has_id :: "collection \<Rightarrow> pyval \<Rightarrow> bool" where
  "has_id documents i = list_ex (\<lambda>k. py_eq k i) (ids documents)"

text \<open>
  The invariant of the store: every identifier is hashable, no two identifiers are equal,
  and every document carries under \<^verbatim>\<open>_id\<close> a value equal to the identifier it is
  stored under.
\<close>

fun unique_ids :: "collection \<Rightarrow> bool" where
  "unique_ids [] = True"
| "unique_ids ((k, d) # rest) = (\<not> has_id rest k \<and> unique_ids rest)"

definition id_of_doc :: "pyval \<times> pyval \<Rightarrow> bool" where
  "id_of_doc kd =
     (hashable (fst kd) \<and> (case getitem_id (snd kd) of Inl e \<Rightarrow> False | Inr i \<Rightarrow> py_eq (fst kd) i))"

definition store_inv :: "collection \<Rightarrow> bool" where
  "store_inv documents = (unique_ids documents \<and> list_all id_of_doc documents)"


text \<open>
  First-insertion order, in the words of the claim: going through the identifiers as they
  are inserted, one that equals an earlier one keeps the earlier one's place, a new one goes
  to the end.
\<close>

fun first_insertion_order :: "pyval list \<Rightarrow> pyval list \<Rightarrow> pyval list" where
  "first_insertion_order seen [] = seen"
| "first_insertion_order seen (i # rest) =
     first_insertion_order (if py_in_list i seen then seen else seen @ [i]) rest"



text \<open>\<^verbatim>\<open>isinstance(v, str)\<close>.\<close>

fun is_str :: "pyval \<Rightarrow> bool" where
  "is_str (PStr _) = True"
| "is_str _ = False"

text \<open>\<^verbatim>\<open>isinstance(v, int)\<close> for a value that is no boolean.\<close>

fun is_int :: "pyval \<Rightarrow> bool" where
  "is_int (PInt _) = True"
| "is_int _ = False"

text \<open>
  A document whose value under \<^verbatim>\<open>schedule_details.days\<close> is absent, or false as a
  truth value, or a list.
\<close>

definition days_ok :: "pyval \<Rightarrow> bool" where
  "days_ok document =
     (let v = get_nested_value document ''schedule_details.days''
      in \<not> py_truthy v \<or> is_list v)"

text \<open>The values a document holds in the list at that path, and those of the whole store.\<close>

definition day_list :: "pyval \<Rightarrow> pyval list" where
  "day_list document =
     (case get_nested_value document ''schedule_details.days'' of PList xs \<Rightarrow> xs | _ \<Rightarrow> [])"

definition all_days :: "collection \<Rightarrow> pyval list" where
  "all_days documents = concat (map (\<lambda>kd. day_list (snd kd)) documents)"

text \<open>
  Values that \<^verbatim>\<open>sorted(set(...))\<close> accepts: each can go into a set, and any two are
  equal or can be compared with \<^verbatim>\<open><\<close>. Lists of strings and lists of numbers are the
  usual cases.
\<close>

definition comparable :: "pyval \<Rightarrow> pyval \<Rightarrow> bool" where
  "comparable a b = (case py_lt a b of Inl e \<Rightarrow> False | Inr r \<Rightarrow> True)"

definition sortable :: "pyval list \<Rightarrow> bool" where
  "sortable xs =
     (list_all hashable xs
      \<and> list_all (\<lambda>a. list_all (\<lambda>b. py_eq a b \<or> comparable a b) xs) xs)"

text \<open>\<^verbatim>\<open>a < b\<close> holds, and a list in which no two values are equal.\<close>

definition py_less :: "pyval \<Rightarrow> pyval \<Rightarrow> bool" where
  "py_less a b = (py_lt a b = Inr True)"

fun eq_distinct :: "pyval list \<Rightarrow> bool" where
  "eq_distinct [] = True"
| "eq_distinct (x # xs) = (\<not> py_in_list x xs \<and> eq_distinct xs)"

text \<open>
  The store on a heap is in order when every stored reference stands for a tree; its view
  is the collection of these trees, and the objects it owns are those reachable from the
  stored references.
\<close>

definition hstore_ok :: "heap \<Rightarrow> hstore \<Rightarrow> bool" where
  "hstore_ok h documents = list_all (\<lambda>kv. read_tree h (snd kv) \<noteq> None) documents"

definition tree_at :: "heap \<Rightarrow> hval \<Rightarrow> pyval" where
  "tree_at h v = (case read_tree h v of None \<Rightarrow> PNone | Some t \<Rightarrow> t)"

definition view :: "heap \<Rightarrow> hstore \<Rightarrow> collection" where
  "view h documents = map (\<lambda>kv. (fst kv, tree_at h (snd kv))) documents"

definition owned :: "heap \<Rightarrow> hstore \<Rightarrow> addr set" where
  "owned h documents = (\<Union>kv \<in> set documents. reach h (snd kv))"

text \<open>
  What a caller sees of a result: the trees of the references it was handed.
\<close>

definition abs_find_one :: "(error + heap \<times> hval option) option \<Rightarrow> (error + pyval option) option" where
  "abs_find_one r =
     (case r of
        None \<Rightarrow> None
      | Some (Inl e) \<Rightarrow> Some (Inl e)
      | Some (Inr (h', None)) \<Rightarrow> Some (Inr None)
      | Some (Inr (h', Some c)) \<Rightarrow>
          (case read_tree h' c of None \<Rightarrow> None | Some t \<Rightarrow> Some (Inr (Some t))))"

definition abs_find :: "(error + heap \<times> hval list) option \<Rightarrow> (error + pyval list) option" where
  "abs_find r =
     (case r of
        None \<Rightarrow> None
      | Some (Inl e) \<Rightarrow> Some (Inl e)
      | Some (Inr (h', cs)) \<Rightarrow>
          (case read_list (length h') h' cs of None \<Rightarrow> None | Some ts \<Rightarrow> Some (Inr ts)))"

definition abs_insert :: "(error + heap \<times> hstore) option \<Rightarrow> (error + collection) option" where
  "abs_insert r =
     (case r of
        None \<Rightarrow> None
      | Some (Inl e) \<Rightarrow> Some (Inl e)
      | Some (Inr (h', documents')) \<Rightarrow> Some (Inr (view h' documents')))"

text \<open>
  Measures and ranges for the proofs about allocation: the depth of references in a tree,
  references that all lie in a range of addresses, and a heap whose objects from an
  address on refer only to objects from that address on.
\<close>

fun height :: "pyval \<Rightarrow> nat"
  and height_list :: "pyval list \<Rightarrow> nat"
  and height_items :: "pydict \<Rightarrow> nat" where
  "height (PList xs) = Suc (height_list xs)"
| "height (PDict kts) = Suc (height_items kts)"
| "height PNone = 0"
| "height (PBool b) = 0"
| "height (PInt i) = 0"
| "height (PStr s) = 0"
| "height_list [] = 0"
| "height_list (x # xs) = max (height x) (height_list xs)"
| "height_items [] = 0"
| "height_items ((k, x) # kts) = max (height x) (height_items kts)"

definition in_range :: "nat \<Rightarrow> nat \<Rightarrow> hval list \<Rightarrow> bool" where
  "in_range lo hi vs = (\<forall>b. HRef b \<in> set vs \<longrightarrow> lo \<le> b \<and> b < hi)"

definition closed_from :: "nat \<Rightarrow> heap \<Rightarrow> bool" where
  "closed_from lo h = (\<forall>a. lo \<le> a \<and> a < length h \<longrightarrow> in_range lo (length h) (refs_of (h ! a)))"

text \<open>
  A caller's heap with one document, the heap after the document was inserted into the
  empty store, and the heap after the stored document was retrieved once.
\<close>

definition caller_heap :: heap where
  "caller_heap =
     [HList [HStr ''m@mergington.edu''],
      HDict [(''_id'', HStr ''Chess Club''), (''participants'', HRef 0)]]"

definition heap_after_insert :: heap where
  "heap_after_insert =
     caller_heap @
     [HList [HStr ''m@mergington.edu''],
      HDict [(''_id'', HStr ''Chess Club''), (''participants'', HRef 2)]]"

definition heap_after_find :: heap where
  "heap_after_find =
     heap_after_insert @
     [HList [HStr ''m@mergington.edu''],
      HDict [(''_id'', HStr ''Chess Club''), (''participants'', HRef 4)]]"

definition chess_club :: pyval where
  "chess_club =
     PDict [(''_id'', PStr ''Chess Club''), (''participants'', PList [PStr ''m@mergington.edu''])]"

section \<open>Properties of the path resolver and the query matcher\<close>

lemma descend_resolve:
  "descend v parts = (case resolve v parts of None \<Rightarrow> PNone | Some w \<Rightarrow> w)"
  by (induction v parts rule: descend.induct) (auto split: pyval.splits option.splits)

lemma get_nested_value_absent:
  "resolve_path document key = None \<Longrightarrow> get_nested_value document key = PNone"
  by (simp add: resolve_path_def get_nested_value_def descend_resolve)

lemma field_ok_literal:
  "\<not> is_dict expected \<Longrightarrow> field_ok actual expected = Inr (py_eq actual expected)"
  by (cases expected) (simp_all add: field_ok_def py_ne_def)

lemma and_then_True_right [simp]: "and_then r (Inr True) = r"
  by (auto simp: and_then_def split: sum.splits)

lemmas matcher_defs = resolve_path_def get_nested_value_def field_ok_def py_ne_def and_then_def
  check_in_def check_gte_def check_lte_def py_gt_def py_in_list_def

lemma matches_query_True_iff:
  "matches_query document query = Inr True \<longleftrightarrow>
     (\<forall>(key, expected) \<in> set query. field_ok (get_nested_value document key) expected = Inr True)"
  by (induction query) (auto simp: and_then_def split: sum.splits if_splits)

lemma matches_query_single:
  "matches_query document [(key, expected)] = field_ok (get_nested_value document key) expected"
  by simp

text \<open>
  C1 (as the code has it). Path resolution returns \<^verbatim>\<open>None\<close> for a path that does not
  resolve, the same value as a stored null. So a document in which the path of an
  equality constraint does not resolve satisfies the constraint exactly when the literal
  is \<^verbatim>\<open>None\<close>; with any other literal it fails the constraint, and any query holding
  that constraint does not match the document.
\<close>

theorem absent_equality_constraint:
  assumes "resolve_path document key = None" and "\<not> is_dict expected"
  shows "field_ok (get_nested_value document key) expected = Inr (expected = PNone)
       \<and> matches_query document [(key, expected)] = Inr (expected = PNone)
       \<and> ((key, expected) \<in> set query \<and> expected \<noteq> PNone
            \<longrightarrow> matches_query document query \<noteq> Inr True)"
proof -
  have a: "get_nested_value document key = PNone"
    using assms(1) by (rule get_nested_value_absent)
  have f: "field_ok (get_nested_value document key) expected = Inr (expected = PNone)"
    using assms(2) by (simp add: a field_ok_literal)
  have q: "matches_query document query \<noteq> Inr True"
    if "(key, expected) \<in> set query" "expected \<noteq> PNone"
  proof
    assume "matches_query document query = Inr True"
    then have "field_ok (get_nested_value document key) expected = Inr True"
      using that(1) by (auto simp: matches_query_True_iff)
    then show False using f that(2) by simp
  qed
  show ?thesis using f q by simp
qed

theorem absent_equality_constraint_witness:
  "resolve_path (PDict [(''_id'', PStr ''Chess Club'')]) ''room'' = None
   \<and> \<not> is_dict (PStr ''B12'')
   \<and> matches_query (PDict [(''_id'', PStr ''Chess Club'')]) [(''room'', PStr ''B12'')] = Inr False
   \<and> matches_query (PDict [(''_id'', PStr ''Chess Club'')])
        [(''_id'', PStr ''Chess Club''), (''room'', PStr ''B12'')] \<noteq> Inr True"
  using absent_equality_constraint [of "PDict [(''_id'', PStr ''Chess Club'')]" "''room''"
          "PStr ''B12''" "[(''_id'', PStr ''Chess Club''), (''room'', PStr ''B12'')]"]
  by (simp add: matcher_defs)

text \<open>
  C1 as stated fails: the path \<^verbatim>\<open>room\<close> does not resolve in the document, and the
  equality constraint with the literal \<^verbatim>\<open>None\<close> matches it.
\<close>

theorem absent_matches_null_literal:
  "resolve_path (PDict [(''_id'', PStr ''Chess Club'')]) ''room'' = None
   \<and> matches_query (PDict [(''_id'', PStr ''Chess Club'')]) [(''room'', PNone)] = Inr True"
  by (simp add: matcher_defs)

lemma check_gte_None [simp]: "check_gte PNone bound = Inr False"
  by (simp add: check_gte_def)

lemma check_lte_None [simp]: "check_lte PNone bound = Inr False"
  by (simp add: check_lte_def)

lemma check_gte_int [simp]: "check_gte (PInt n) (PInt lo) = Inr (lo \<le> n)"
  by (auto simp: check_gte_def)

lemma check_lte_int [simp]: "check_lte (PInt n) (PInt hi) = Inr (n \<le> hi)"
  by (auto simp: check_lte_def py_gt_def)

lemma check_gte_str [simp]: "check_gte (PStr s) (PStr lo) = Inr (\<not> str_lt s lo)"
  by (auto simp: check_gte_def)

lemma check_lte_str [simp]: "check_lte (PStr s) (PStr hi) = Inr (\<not> str_lt hi s)"
  by (auto simp: check_lte_def py_gt_def)





lemma check_in_list_candidates:
  "check_in actual (PList candidates) =
     Inr (case actual of
            PList xs \<Rightarrow> (\<exists>c \<in> set candidates. \<exists>x \<in> set xs. py_eq x c)
          | _ \<Rightarrow> (\<exists>c \<in> set candidates. py_eq c actual))"
  by (cases actual) (auto simp: check_in_def py_in_list_def list_ex_iff)

text \<open>
  C3. For a membership constraint whose candidates are a list: when the value at the path
  is a list, the document matches iff some element of that list equals some candidate;
  otherwise it matches iff the value itself equals some candidate.
\<close>

theorem membership_constraint:
  assumes "map_of ops ''$in'' = Some (PList candidates)"
    and "map_of ops ''$gte'' = None" and "map_of ops ''$lte'' = None"
  shows "matches_query document [(key, PDict ops)] =
     Inr (case get_nested_value document key of
            PList xs \<Rightarrow> (\<exists>c \<in> set candidates. \<exists>x \<in> set xs. py_eq x c)
          | actual \<Rightarrow> (\<exists>c \<in> set candidates. py_eq c actual))"
  using assms by (simp add: field_ok_def check_in_list_candidates cong: pyval.case_cong)

theorem membership_constraint_witness:
  "matches_query (PDict [(''schedule_details'', PDict [(''days'', PList [PStr ''Monday'', PStr ''Friday''])])])
       [(''schedule_details.days'', PDict [(''$in'', PList [PStr ''Monday''])])] = Inr True
   \<and> matches_query (PDict [(''schedule_details'', PDict [(''days'', PList [PStr ''Tuesday''])])])
       [(''schedule_details.days'', PDict [(''$in'', PList [PStr ''Monday''])])] = Inr False
   \<and> matches_query (PDict [(''role'', PStr ''admin'')])
       [(''role'', PDict [(''$in'', PList [PStr ''teacher'', PStr ''admin''])])] = Inr True"
  using membership_constraint [of "[(''$in'', PList [PStr ''Monday''])]" "[PStr ''Monday'']"
          "PDict [(''schedule_details'', PDict [(''days'', PList [PStr ''Monday'', PStr ''Friday''])])]"
          "''schedule_details.days''"]
        membership_constraint [of "[(''$in'', PList [PStr ''Monday''])]" "[PStr ''Monday'']"
          "PDict [(''schedule_details'', PDict [(''days'', PList [PStr ''Tuesday''])])]"
          "''schedule_details.days''"]
        membership_constraint [of "[(''$in'', PList [PStr ''teacher'', PStr ''admin''])]"
          "[PStr ''teacher'', PStr ''admin'']" "PDict [(''role'', PStr ''admin'')]" "''role''"]
  by (simp add: get_nested_value_def)

lemma field_ok_recognised_only:
  assumes "map_of ops ''$in'' = map_of ops' ''$in''"
    and "map_of ops ''$gte'' = map_of ops' ''$gte''"
    and "map_of ops ''$lte'' = map_of ops' ''$lte''"
  shows "field_ok actual (PDict ops) = field_ok actual (PDict ops')"
  unfolding field_ok_def by (simp only: pyval.case assms)

lemma and_then_True_left [simp]: "and_then (Inr True) k = k"
  by (simp add: and_then_def)

lemma and_then_assoc: "and_then (and_then a b) c = and_then a (and_then b c)"
  by (cases a) (simp_all add: and_then_def)

lemma matches_query_append:
  "matches_query document (q1 @ q2) = and_then (matches_query document q1) (matches_query document q2)"
proof (induction q1)
  case Nil
  show ?case by simp
next
  case (Cons kv q1)
  obtain key expected where kv: "kv = (key, expected)" by (cases kv)
  show ?case by (simp add: kv Cons.IH and_then_assoc)
qed

text \<open>
  C9. A constraint whose expected value is a dictionary is decided by what the dictionary
  holds under \<^verbatim>\<open>$in\<close>, \<^verbatim>\<open>$gte\<close> and \<^verbatim>\<open>$lte\<close> alone. With none of these keys the
  constraint holds for every document, also where the field is absent, and it can be dropped
  from any query; so a nested document given as the expected value selects nothing.
\<close>

theorem unrecognised_operators_constrain_nothing:
  "(map_of ops ''$in'' = map_of ops' ''$in'' \<and> map_of ops ''$gte'' = map_of ops' ''$gte''
      \<and> map_of ops ''$lte'' = map_of ops' ''$lte''
    \<longrightarrow> field_ok actual (PDict ops) = field_ok actual (PDict ops'))
   \<and> (map_of ops ''$in'' = None \<and> map_of ops ''$gte'' = None \<and> map_of ops ''$lte'' = None
    \<longrightarrow> field_ok actual (PDict ops) = Inr True
      \<and> matches_query document [(key, PDict ops)] = Inr True
      \<and> matches_query document (q1 @ (key, PDict ops) # q2) = matches_query document (q1 @ q2))"
proof (intro conjI impI)
  assume "map_of ops ''$in'' = map_of ops' ''$in'' \<and> map_of ops ''$gte'' = map_of ops' ''$gte''
      \<and> map_of ops ''$lte'' = map_of ops' ''$lte''"
  then show "field_ok actual (PDict ops) = field_ok actual (PDict ops')"
    by (intro field_ok_recognised_only) blast+
next
  assume n: "map_of ops ''$in'' = None \<and> map_of ops ''$gte'' = None \<and> map_of ops ''$lte'' = None"
  then show "field_ok actual (PDict ops) = Inr True"
    by (simp add: field_ok_def)
next
  assume n: "map_of ops ''$in'' = None \<and> map_of ops ''$gte'' = None \<and> map_of ops ''$lte'' = None"
  then show "matches_query document [(key, PDict ops)] = Inr True"
    by (simp add: field_ok_def)
next
  assume n: "map_of ops ''$in'' = None \<and> map_of ops ''$gte'' = None \<and> map_of ops ''$lte'' = None"
  then have f: "field_ok (get_nested_value document key) (PDict ops) = Inr True"
    by (simp add: field_ok_def)
  have "matches_query document ((key, PDict ops) # q2) = matches_query document q2"
    by (simp add: f and_then_def)
  then show "matches_query document (q1 @ (key, PDict ops) # q2) = matches_query document (q1 @ q2)"
    by (simp only: matches_query_append)
qed

theorem unrecognised_operators_constrain_nothing_witness:
  "matches_query (PDict [(''_id'', PStr ''Art Club''), (''schedule_details'', PDict [(''days'', PList [PStr ''Thursday''])])])
      [(''schedule_details'', PDict [(''days'', PList [PStr ''Monday''])])] = Inr True
   \<and> matches_query (PDict [(''_id'', PStr ''Art Club'')])
      [(''schedule_details'', PDict [(''days'', PList [PStr ''Monday''])])] = Inr True
   \<and> field_ok (PInt 3) (PDict [(''$gt'', PInt 5)]) = field_ok (PInt 3) (PDict [])"
  using unrecognised_operators_constrain_nothing [of "[(''days'', PList [PStr ''Monday''])]" "[]"
          "PInt 3"
          "PDict [(''_id'', PStr ''Art Club''), (''schedule_details'', PDict [(''days'', PList [PStr ''Thursday''])])]"
          "''schedule_details''" "[]" "[]"]
        unrecognised_operators_constrain_nothing [of "[(''days'', PList [PStr ''Monday''])]" "[]"
          "PInt 3" "PDict [(''_id'', PStr ''Art Club'')]" "''schedule_details''" "[]" "[]"]
        unrecognised_operators_constrain_nothing [of "[(''$gt'', PInt 5)]" "[]" "PInt 3"
          "PDict []" "[]" "[]" "[]"]
  by simp

section \<open>Properties of the update executor\<close>


lemma put_unresolved:
  "resolve v parts = None \<Longrightarrow> put parts new v = v"
  by (induction v parts rule: resolve.induct)
     (auto split: pyval.splits option.splits simp: update_triv)







lemma remove_first_absent:
  "\<not> py_in_list value xs \<Longrightarrow> remove_first value xs = xs"
  by (induction xs) (auto simp: py_in_list_def)



















section \<open>Properties of the document store\<close>

lemma py_eq_sym_hashable: "hashable a \<Longrightarrow> py_eq a b = py_eq b a"
  by (cases a; cases b) auto

lemma py_eq_refl_hashable: "hashable a \<Longrightarrow> py_eq a a"
  by (cases a) auto

lemma py_eq_trans_hashable: "hashable b \<Longrightarrow> py_eq a b \<Longrightarrow> py_eq b c \<Longrightarrow> py_eq a c"
  by (cases a; cases b; cases c) (auto split: if_splits)

lemma py_eq_hashable_left: "hashable a \<Longrightarrow> py_eq a b \<Longrightarrow> hashable b"
  by (cases a; cases b) auto

lemma ids_store_doc:
  "ids (store_doc i d documents) = (if has_id documents i then ids documents else ids documents @ [i])"
  by (induction documents) (auto simp: ids_def has_id_def)

lemma length_store_doc:
  "length (store_doc i d documents) = (if has_id documents i then length documents else Suc (length documents))"
  by (induction documents) (auto simp: ids_def has_id_def)

lemma store_doc_new:
  "\<not> has_id documents i \<Longrightarrow> store_doc i d documents = documents @ [(i, d)]"
  by (induction documents) (auto simp: ids_def has_id_def)

lemma store_doc_existing:
  "has_id documents i \<Longrightarrow>
   \<exists>pre k old post. documents = pre @ (k, old) # post \<and> py_eq k i \<and> \<not> has_id pre i
      \<and> store_doc i d documents = pre @ (k, d) # post"
proof (induction documents)
  case Nil
  then show ?case by (simp add: has_id_def ids_def)
next
  case (Cons kd documents)
  obtain k old where kd: "kd = (k, old)" by (cases kd)
  show ?case
  proof (cases "py_eq k i")
    case True
    then have "kd # documents = [] @ (k, old) # documents \<and> py_eq k i \<and> \<not> has_id [] i
      \<and> store_doc i d (kd # documents) = [] @ (k, d) # documents"
      by (simp add: kd has_id_def ids_def)
    then show ?thesis by blast
  next
    case False
    with Cons.prems have "has_id documents i" by (simp add: kd has_id_def ids_def)
    from Cons.IH [OF this] obtain pre k' old' post where
      h: "documents = pre @ (k', old') # post" "py_eq k' i" "\<not> has_id pre i"
         "store_doc i d documents = pre @ (k', d) # post" by blast
    with False have "kd # documents = (kd # pre) @ (k', old') # post \<and> py_eq k' i
      \<and> \<not> has_id (kd # pre) i
      \<and> store_doc i d (kd # documents) = (kd # pre) @ (k', d) # post"
      by (simp add: kd has_id_def ids_def)
    then show ?thesis by blast
  qed
qed

lemma count_documents_empty_query: "count_documents documents [] = Inr (length documents)"
  by (induction documents) auto

lemma unique_ids_same_ids:
  "ids a = ids b \<Longrightarrow> unique_ids a = unique_ids b"
proof (induction a arbitrary: b)
  case Nil
  then show ?case by (simp add: ids_def)
next
  case (Cons x a)
  then obtain y b' where b: "b = y # b'" by (cases b) (auto simp: ids_def)
  with Cons.prems have f: "fst x = fst y" and r: "ids a = ids b'" by (simp_all add: ids_def)
  from Cons.IH [OF r] have "unique_ids a = unique_ids b'" .
  moreover from r have "has_id a (fst x) = has_id b' (fst x)" by (simp add: has_id_def)
  ultimately show ?case using f b by (cases x; cases y) simp
qed

lemma has_id_append: "has_id (a @ b) i = (has_id a i \<or> has_id b i)"
  by (auto simp: has_id_def ids_def list_ex_iff)

lemma unique_ids_snoc:
  "hashable i \<Longrightarrow> unique_ids (documents @ [(i, d)]) = (unique_ids documents \<and> \<not> has_id documents i)"
proof (induction documents)
  case Nil
  show ?case by (simp add: has_id_def ids_def)
next
  case (Cons kd documents)
  obtain k old where kd: "kd = (k, old)" by (cases kd)
  have "has_id [(i, d)] k = py_eq k i"
    using py_eq_sym_hashable [OF Cons.prems, of k] by (simp add: has_id_def ids_def)
  then show ?case using Cons by (auto simp: kd has_id_append) (auto simp: has_id_def ids_def)
qed

lemma unique_ids_store_doc:
  "hashable i \<Longrightarrow> unique_ids documents \<Longrightarrow> unique_ids (store_doc i d documents)"
proof (cases "has_id documents i")
  case True
  assume "unique_ids documents"
  moreover have "ids (store_doc i d documents) = ids documents" using True by (simp add: ids_store_doc)
  ultimately show ?thesis using unique_ids_same_ids by blast
next
  case False
  assume "hashable i" "unique_ids documents"
  then show ?thesis using False by (simp add: store_doc_new unique_ids_snoc)
qed


lemma id_of_doc_store_doc:
  assumes "getitem_id d = Inr i" and "hashable i"
  shows "list_all id_of_doc documents \<Longrightarrow> list_all id_of_doc (store_doc i d documents)"
proof (induction documents)
  case Nil
  show ?case using assms by (simp add: id_of_doc_def py_eq_refl_hashable)
next
  case (Cons kd documents)
  obtain k old where kd: "kd = (k, old)" by (cases kd)
  from Cons show ?case using assms by (auto simp: kd id_of_doc_def)
qed

lemma split_dot_nonempty: "split_dot s \<noteq> []"
  by (induction s) (auto split: list.splits)

lemma descend_hashable_not_list: "hashable i \<Longrightarrow> descend i parts \<noteq> PList xs"
  by (cases parts; cases i) auto

lemma getitem_id_put:
  assumes "getitem_id d = Inr i" and "hashable i" and "descend d parts = PList xs"
    and "parts \<noteq> []"
  shows "getitem_id (put parts new d) = Inr i"
proof -
  from assms(4) obtain p ps where parts: "parts = p # ps" by (cases parts) auto
  from assms(1) obtain kvs where d: "d = PDict kvs" and i: "map_of kvs ''_id'' = Some i"
    by (cases d) (auto simp: getitem_id_def split: option.splits)
  from assms(3) obtain w where w: "map_of kvs p = Some w" and dw: "descend w ps = PList xs"
    by (auto simp: parts d split: option.splits)
  have "p \<noteq> ''_id''"
  proof
    assume "p = ''_id''"
    with w i have "w = i" by simp
    with dw descend_hashable_not_list [OF assms(2)] show False by blast
  qed
  then show ?thesis using i w by (simp add: parts d getitem_id_def update_conv')
qed

lemma getitem_id_set_nested_value:
  assumes "getitem_id d = Inr i" and "hashable i" and "get_nested_value d field = PList xs"
  shows "getitem_id (set_nested_value d field new) = Inr i"
  using assms getitem_id_put [of d i "split_dot field" xs new]
  by (simp add: get_nested_value_def set_nested_value_def split_dot_nonempty)

lemma getitem_id_push_one:
  "getitem_id d = Inr i \<Longrightarrow> hashable i \<Longrightarrow> getitem_id (fst (push_one d f v m)) = Inr i"
  by (cases "get_nested_value d f") (simp_all add: push_one_def getitem_id_set_nested_value)

lemma getitem_id_pull_one:
  "getitem_id d = Inr i \<Longrightarrow> hashable i \<Longrightarrow> getitem_id (fst (pull_one d f v m)) = Inr i"
  by (cases "get_nested_value d f") (simp_all add: pull_one_def getitem_id_set_nested_value)

lemma getitem_id_push_pairs:
  "getitem_id d = Inr i \<Longrightarrow> hashable i \<Longrightarrow> getitem_id (fst (push_pairs d pairs m)) = Inr i"
proof (induction pairs arbitrary: d m)
  case Nil
  then show ?case by simp
next
  case (Cons fv pairs)
  obtain f v where fv: "fv = (f, v)" by (cases fv)
  obtain d1 m1 where one: "push_one d f v m = (d1, m1)" by (cases "push_one d f v m")
  from getitem_id_push_one [OF Cons.prems, of f v m] have "getitem_id d1 = Inr i"
    by (simp add: one)
  from Cons.IH [OF this Cons.prems(2)] show ?case by (simp add: fv one)
qed

lemma getitem_id_pull_pairs:
  "getitem_id d = Inr i \<Longrightarrow> hashable i \<Longrightarrow> getitem_id (fst (pull_pairs d pairs m)) = Inr i"
proof (induction pairs arbitrary: d m)
  case Nil
  then show ?case by simp
next
  case (Cons fv pairs)
  obtain f v where fv: "fv = (f, v)" by (cases fv)
  obtain d1 m1 where one: "pull_one d f v m = (d1, m1)" by (cases "pull_one d f v m")
  from getitem_id_pull_one [OF Cons.prems, of f v m] have "getitem_id d1 = Inr i"
    by (simp add: one)
  from Cons.IH [OF this Cons.prems(2)] show ?case by (simp add: fv one)
qed

lemma getitem_id_apply_update:
  assumes "getitem_id d = Inr i" and "hashable i"
  shows "getitem_id (fst (apply_update d update)) = Inr i"
proof -
  have push: "getitem_id d1 = Inr i"
    if "(case map_of update ''$push'' of
              None \<Rightarrow> Inr (d, 0)
            | Some (PDict pairs) \<Rightarrow> Inr (push_pairs d pairs 0)
            | Some _ \<Rightarrow> Inl AttributeError) = Inr (d1, m1)" for d1 m1
    using that assms getitem_id_push_pairs [OF assms, of _ 0]
    by (auto split: option.splits pyval.splits) (metis fst_conv)
  show ?thesis
  proof (cases "case map_of update ''$push'' of
              None \<Rightarrow> Inr (d, 0)
            | Some (PDict pairs) \<Rightarrow> Inr (push_pairs d pairs 0)
            | Some _ \<Rightarrow> Inl AttributeError")
    case (Inl e)
    then show ?thesis using assms by (simp add: apply_update_def)
  next
    case (Inr dm)
    obtain d1 m1 where dm: "dm = (d1, m1)" by (cases dm)
    from push Inr dm have g1: "getitem_id d1 = Inr i" by simp
    show ?thesis
    proof (cases "map_of update ''$pull''")
      case None
      then show ?thesis using Inr dm g1 by (simp add: apply_update_def)
    next
      case (Some v)
      show ?thesis
      proof (cases v)
        case (PDict pairs)
        obtain d2 m2 where pp: "pull_pairs d1 pairs m1 = (d2, m2)"
          by (cases "pull_pairs d1 pairs m1")
        from getitem_id_pull_pairs [OF g1 assms(2), of pairs m1] pp
        have "getitem_id d2 = Inr i" by simp
        then show ?thesis using Inr dm Some PDict pp by (simp add: apply_update_def)
      qed (use Inr dm Some g1 in \<open>simp_all add: apply_update_def\<close>)
    qed
  qed
qed

lemma id_of_doc_apply_update:
  "id_of_doc (k, d) \<Longrightarrow> id_of_doc (k, fst (apply_update d update))"
proof -
  assume a: "id_of_doc (k, d)"
  then obtain i where i: "getitem_id d = Inr i" "py_eq k i" "hashable k"
    by (auto simp: id_of_doc_def split: sum.splits)
  then have "hashable i" using py_eq_hashable_left by blast
  from getitem_id_apply_update [OF i(1) this] i show ?thesis by (simp add: id_of_doc_def)
qed

lemma ids_update_one: "ids (fst (update_one documents query update)) = ids documents"
  by (induction documents) (auto simp: ids_def split: sum.splits prod.splits)

lemma id_of_doc_update_one:
  "list_all id_of_doc documents \<Longrightarrow> list_all id_of_doc (fst (update_one documents query update))"
proof (induction documents)
  case Nil
  show ?case by simp
next
  case (Cons kd documents)
  obtain k d where kd: "kd = (k, d)" by (cases kd)
  from Cons.prems have h: "id_of_doc (k, d)" "list_all id_of_doc documents" by (simp_all add: kd)
  show ?case
  proof (cases "matches_query d query")
    case (Inl e)
    then show ?thesis using Cons.prems by (simp add: kd)
  next
    case (Inr b)
    show ?thesis
    proof (cases b)
      case True
      obtain d' r where au: "apply_update d update = (d', r)" by (cases "apply_update d update")
      from id_of_doc_apply_update [OF h(1), of update] au have "id_of_doc (k, d')" by simp
      then show ?thesis using Inr True au h(2) by (simp add: kd)
    next
      case False
      obtain rest' r where u: "update_one documents query update = (rest', r)"
        by (cases "update_one documents query update")
      from Cons.IH [OF h(2)] u have "list_all id_of_doc rest'" by simp
      then show ?thesis using Inr False u h(1) by (simp add: kd)
    qed
  qed
qed

lemma store_inv_insert_one:
  assumes "store_inv documents" and "insert_one documents document = Inr documents'"
  shows "store_inv documents'"
proof -
  from assms(2) obtain i where i: "getitem_id document = Inr i" "hashable i"
    and d': "documents' = store_doc i document documents"
    by (auto simp: insert_one_def deepcopy_def split: sum.splits if_splits)
  from assms(1) have "unique_ids documents" "list_all id_of_doc documents"
    by (simp_all add: store_inv_def)
  then show ?thesis
    using unique_ids_store_doc [OF i(2)] id_of_doc_store_doc [OF i]
    by (simp add: store_inv_def d')
qed

lemma store_inv_update_one:
  assumes "store_inv documents"
  shows "store_inv (fst (update_one documents query update))"
proof -
  from assms have u: "unique_ids documents" and l: "list_all id_of_doc documents"
    by (simp_all add: store_inv_def)
  have "unique_ids (fst (update_one documents query update))"
    using u unique_ids_same_ids [OF ids_update_one] by blast
  then show ?thesis using id_of_doc_update_one [OF l] by (simp add: store_inv_def)
qed

text \<open>
  C8. Inserting a document whose identifier equals one already stored puts the document
  in the place of the old one and raises nothing; the count of the empty query and the
  identifiers stay as they were. The invariant of the store (identifiers pairwise unequal,
  each the \<^verbatim>\<open>_id\<close> of its document) holds for the empty store and is kept by
  \<^verbatim>\<open>insert_one\<close> and \<^verbatim>\<open>update_one\<close>, the two operations that change the store.
\<close>

theorem insert_one_existing_id:
  "(getitem_id document = Inr i \<and> hashable i \<and> has_id documents i \<longrightarrow>
       (\<exists>pre k old post. documents = pre @ (k, old) # post \<and> py_eq k i \<and> \<not> has_id pre i
           \<and> insert_one documents document = Inr (pre @ (k, document) # post))
     \<and> (\<exists>documents'. insert_one documents document = Inr documents'
           \<and> count_documents documents' [] = count_documents documents []
           \<and> ids documents' = ids documents))
   \<and> (store_inv documents \<and> insert_one documents document = Inr documents'
        \<longrightarrow> store_inv documents')
   \<and> (store_inv documents \<longrightarrow> store_inv (fst (update_one documents query update)))
   \<and> store_inv []"
proof -
  have a: "\<exists>pre k old post. documents = pre @ (k, old) # post \<and> py_eq k i \<and> \<not> has_id pre i
           \<and> insert_one documents document = Inr (pre @ (k, document) # post)"
    if "getitem_id document = Inr i \<and> hashable i \<and> has_id documents i"
    using that store_doc_existing [of documents i document]
    by (simp add: insert_one_def deepcopy_def)
  have b: "\<exists>documents'. insert_one documents document = Inr documents'
           \<and> count_documents documents' [] = count_documents documents []
           \<and> ids documents' = ids documents"
    if "getitem_id document = Inr i \<and> hashable i \<and> has_id documents i"
    using that
    by (simp add: insert_one_def deepcopy_def count_documents_empty_query length_store_doc
          ids_store_doc)
  have c: "store_inv documents'"
    if "store_inv documents \<and> insert_one documents document = Inr documents'"
    using that store_inv_insert_one by blast
  have d: "store_inv (fst (update_one documents query update))" if "store_inv documents"
    using that by (rule store_inv_update_one)
  have e: "store_inv []" by (simp add: store_inv_def)
  from a b c d e show ?thesis by blast
qed

lemmas store_defs = insert_one_def getitem_id_def deepcopy_def has_id_def ids_def store_inv_def
  id_of_doc_def

theorem insert_one_existing_id_witness:
  "getitem_id (PDict [(''_id'', PStr ''mchen''), (''role'', PStr ''admin'')]) = Inr (PStr ''mchen'')
   \<and> hashable (PStr ''mchen'')
   \<and> has_id [(PStr ''mchen'', PDict [(''_id'', PStr ''mchen''), (''role'', PStr ''teacher'')]),
              (PStr ''principal'', PDict [(''_id'', PStr ''principal'')])] (PStr ''mchen'')
   \<and> store_inv [(PStr ''mchen'', PDict [(''_id'', PStr ''mchen''), (''role'', PStr ''teacher'')]),
              (PStr ''principal'', PDict [(''_id'', PStr ''principal'')])]
   \<and> insert_one
        [(PStr ''mchen'', PDict [(''_id'', PStr ''mchen''), (''role'', PStr ''teacher'')]),
         (PStr ''principal'', PDict [(''_id'', PStr ''principal'')])]
        (PDict [(''_id'', PStr ''mchen''), (''role'', PStr ''admin'')])
      = Inr [(PStr ''mchen'', PDict [(''_id'', PStr ''mchen''), (''role'', PStr ''admin'')]),
             (PStr ''principal'', PDict [(''_id'', PStr ''principal'')])]
   \<and> store_inv [(PStr ''mchen'', PDict [(''_id'', PStr ''mchen''), (''role'', PStr ''admin'')]),
             (PStr ''principal'', PDict [(''_id'', PStr ''principal'')])]
   \<and> count_documents
        [(PStr ''mchen'', PDict [(''_id'', PStr ''mchen''), (''role'', PStr ''admin'')]),
         (PStr ''principal'', PDict [(''_id'', PStr ''principal'')])] [] = Inr 2"
  using insert_one_existing_id
    [of "PDict [(''_id'', PStr ''mchen''), (''role'', PStr ''admin'')]" "PStr ''mchen''"
        "[(PStr ''mchen'', PDict [(''_id'', PStr ''mchen''), (''role'', PStr ''teacher'')]),
          (PStr ''principal'', PDict [(''_id'', PStr ''principal'')])]"
        "[(PStr ''mchen'', PDict [(''_id'', PStr ''mchen''), (''role'', PStr ''admin'')]),
          (PStr ''principal'', PDict [(''_id'', PStr ''principal'')])]"
        "[]" "[]"]
  by (simp add: store_defs)







lemma count_documents_append:
  "count_documents (a @ b) query =
     (case count_documents a query of
        Inl e \<Rightarrow> Inl e
      | Inr n \<Rightarrow> (case count_documents b query of Inl e \<Rightarrow> Inl e | Inr m \<Rightarrow> Inr (n + m)))"
  by (induction a) (auto split: sum.splits)


lemma add_days_first_insertion_order:
  "list_all hashable items \<Longrightarrow> add_days days items = Inr (first_insertion_order days items)"
  by (induction items arbitrary: days) auto

lemma first_insertion_order_append:
  "first_insertion_order seen (xs @ ys)
     = first_insertion_order (first_insertion_order seen xs) ys"
  by (induction xs arbitrary: seen) auto

lemma days_of_ok: "days_ok document \<Longrightarrow> days_of document = Inr (day_list document)"
  by (cases "get_nested_value document ''schedule_details.days''")
     (auto simp: days_ok_def days_of_def day_list_def)

lemma collect_days_first_insertion_order:
  "list_all (\<lambda>kd. days_ok (snd kd)) documents \<Longrightarrow> list_all hashable (all_days documents) \<Longrightarrow>
   collect_days documents days = Inr (first_insertion_order days (all_days documents))"
proof (induction documents arbitrary: days)
  case Nil
  show ?case by (simp add: all_days_def)
next
  case (Cons kd documents)
  obtain k d where kd: "kd = (k, d)" by (cases kd)
  from Cons.prems have ok: "days_ok d" and rest: "list_all (\<lambda>kd. days_ok (snd kd)) documents"
    and h1: "list_all hashable (day_list d)" and h2: "list_all hashable (all_days documents)"
    by (simp_all add: kd all_days_def)
  have a: "all_days ((k, d) # documents) = day_list d @ all_days documents"
    by (simp add: all_days_def)
  show ?case
    by (simp add: kd days_of_ok [OF ok] add_days_first_insertion_order [OF h1]
          Cons.IH [OF rest h2] a first_insertion_order_append)
qed










section \<open>Properties of the grouping query\<close>

lemma str_lt_irrefl: "\<not> str_lt s s"
  by (induction s) auto

lemma str_lt_trans: "str_lt a b \<Longrightarrow> str_lt b c \<Longrightarrow> str_lt a c"
proof (induction a b arbitrary: c rule: str_lt.induct)
  case 1
  then show ?case by simp
next
  case (2 y ys)
  then show ?case by (cases c) auto
next
  case (3 x xs)
  then show ?case by simp
next
  case (4 x xs y ys)
  then obtain z zs where c: "c = z # zs" by (cases c) auto
  from 4 show ?case by (auto simp: c split: if_splits)
qed

lemma of_char_less_total: "c \<noteq> d \<Longrightarrow> (of_char c :: nat) < of_char d \<or> (of_char d :: nat) < of_char c"
  using of_char_eq_iff [of c d, where ?'a = nat] by linarith

lemma str_lt_total: "s \<noteq> t \<Longrightarrow> str_lt s t \<or> str_lt t s"
proof (induction s t rule: str_lt.induct)
  case (4 c cs d ds)
  then show ?case using of_char_less_total [of c d] by auto
qed auto

lemma py_eq_str_right: "py_eq x (PStr s) = (x = PStr s)"
  by (cases x) auto

lemma is_str_list: "list_all is_str xs \<Longrightarrow> \<exists>ss. xs = map PStr ss"
proof (induction xs)
  case Nil
  show ?case by simp
next
  case (Cons x xs)
  then obtain ss where "xs = map PStr ss" by auto
  moreover from Cons.prems obtain s where "x = PStr s" by (cases x) auto
  ultimately have "x # xs = map PStr (s # ss)" by simp
  then show ?case by (rule exI)
qed

lemma py_lt_hashable_cases:
  assumes "py_lt a b = Inr r" and "hashable a" and "hashable b"
  shows "(\<exists>x y. num_of a = Some x \<and> num_of b = Some y \<and> r = (x < y))
       \<or> (\<exists>s t. a = PStr s \<and> b = PStr t \<and> r = str_lt s t)"
  using assms by (cases a; cases b) (auto split: if_splits)

lemma py_eq_num: "num_of a = Some x \<Longrightarrow> py_eq a b = (num_of b = Some x)"
  by (cases a) (auto split: if_splits)

lemma py_lt_num: "num_of a = Some x \<Longrightarrow> num_of b = Some y \<Longrightarrow> py_lt a b = Inr (x < y)"
  by (cases a; cases b) (auto split: if_splits)

lemma py_less_not_eq:
  assumes "py_less a b" and "hashable a" and "hashable b"
  shows "\<not> py_eq a b"
proof -
  from assms have "py_lt a b = Inr True" by (simp add: py_less_def)
  from py_lt_hashable_cases [OF this assms(2,3)] show ?thesis
    by (auto simp: py_eq_num str_lt_irrefl)
qed

lemma py_less_trans:
  assumes "py_less a b" and "py_less b c" and "hashable a" and "hashable b" and "hashable c"
  shows "py_less a c"
proof -
  from assms have ab: "py_lt a b = Inr True" and bc: "py_lt b c = Inr True"
    by (simp_all add: py_less_def)
  from py_lt_hashable_cases [OF ab assms(3,4)] show ?thesis
  proof
    assume "\<exists>x y. num_of a = Some x \<and> num_of b = Some y \<and> True = (x < y)"
    then obtain x y where n: "num_of a = Some x" "num_of b = Some y" "x < y" by auto
    with py_lt_hashable_cases [OF bc assms(4,5)] obtain z where "num_of c = Some z" "y < z"
      by auto
    with n show ?thesis by (simp add: py_less_def py_lt_num)
  next
    assume "\<exists>s t. a = PStr s \<and> b = PStr t \<and> True = str_lt s t"
    then obtain s t where s: "a = PStr s" "b = PStr t" "str_lt s t" by auto
    with py_lt_hashable_cases [OF bc assms(4,5)] obtain u where "c = PStr u" "str_lt t u"
      by auto
    with s str_lt_trans show ?thesis by (auto simp: py_less_def)
  qed
qed

lemma py_less_total:
  assumes "comparable a b" and "\<not> py_eq a b" and "\<not> py_less a b"
    and "hashable a" and "hashable b"
  shows "py_less b a"
proof -
  from assms(1,3) have ab: "py_lt a b = Inr False"
    by (auto simp: comparable_def py_less_def split: sum.splits)
  from py_lt_hashable_cases [OF ab assms(4,5)] show ?thesis
  proof
    assume "\<exists>x y. num_of a = Some x \<and> num_of b = Some y \<and> False = (x < y)"
    then obtain x y where n: "num_of a = Some x" "num_of b = Some y" "\<not> x < y" by auto
    with assms(2) have "x \<noteq> y" by (simp add: py_eq_num)
    with n show ?thesis by (simp add: py_less_def py_lt_num)
  next
    assume "\<exists>s t. a = PStr s \<and> b = PStr t \<and> False = str_lt s t"
    then obtain s t where s: "a = PStr s" "b = PStr t" "\<not> str_lt s t" by auto
    with assms(2) have "s \<noteq> t" by auto
    with s str_lt_total show ?thesis by (auto simp: py_less_def)
  qed
qed

lemma set_first_insertion_order:
  "set (first_insertion_order seen xs) \<subseteq> set seen \<union> set xs
   \<and> set seen \<subseteq> set (first_insertion_order seen xs)"
proof (induction xs arbitrary: seen)
  case Nil
  show ?case by simp
next
  case (Cons x xs)
  from Cons.IH [of "if py_in_list x seen then seen else seen @ [x]"] show ?case
    by (auto split: if_splits)
qed

lemma py_in_list_mono: "py_in_list x ys \<Longrightarrow> set ys \<subseteq> set zs \<Longrightarrow> py_in_list x zs"
  by (auto simp: py_in_list_def list_ex_iff)

lemma first_insertion_order_covers:
  "list_all hashable xs \<Longrightarrow> x \<in> set xs \<Longrightarrow> py_in_list x (first_insertion_order seen xs)"
proof (induction xs arbitrary: seen)
  case Nil
  then show ?case by simp
next
  case (Cons y xs)
  define seen' where "seen' = (if py_in_list y seen then seen else seen @ [y])"
  have step: "first_insertion_order seen (y # xs) = first_insertion_order seen' xs"
    by (simp add: seen'_def)
  show ?case
  proof (cases "x = y")
    case True
    from Cons.prems(1) have "py_eq y y" by (simp add: py_eq_refl_hashable)
    then have "py_in_list y seen'"
      unfolding seen'_def by (cases "py_in_list y seen") (simp_all add: py_in_list_def)
    moreover have "set seen' \<subseteq> set (first_insertion_order seen' xs)"
      using set_first_insertion_order [of seen' xs] by (rule conjunct2)
    ultimately have "py_in_list y (first_insertion_order seen' xs)" by (rule py_in_list_mono)
    then show ?thesis unfolding step True .
  next
    case False
    with Cons.prems have "x \<in> set xs" "list_all hashable xs" by simp_all
    from Cons.IH [OF this(2,1), of seen'] show ?thesis unfolding step .
  qed
qed

lemma eq_distinct_snoc:
  assumes "hashable x" and "list_all hashable xs"
  shows "eq_distinct (xs @ [x]) = (eq_distinct xs \<and> \<not> py_in_list x xs)"
  using assms(2)
proof (induction xs)
  case Nil
  show ?case by (simp add: py_in_list_def)
next
  case (Cons y ys)
  then have y: "hashable y" and ys: "list_all hashable ys" by simp_all
  have "py_in_list y (ys @ [x]) = (py_in_list y ys \<or> py_eq y x)"
    using py_eq_sym_hashable [OF assms(1), of y] by (auto simp: py_in_list_def)
  moreover have "py_in_list x (y # ys) = (py_eq y x \<or> py_in_list x ys)"
    by (simp add: py_in_list_def)
  ultimately show ?case using Cons.IH [OF ys] by auto
qed

lemma eq_distinct_first_insertion_order:
  "eq_distinct seen \<Longrightarrow> list_all hashable seen \<Longrightarrow> list_all hashable xs \<Longrightarrow>
   eq_distinct (first_insertion_order seen xs)"
proof (induction xs arbitrary: seen)
  case Nil
  then show ?case by simp
next
  case (Cons x xs)
  let ?seen = "if py_in_list x seen then seen else seen @ [x]"
  from Cons.prems have x: "hashable x" and xs: "list_all hashable xs" by simp_all
  have "eq_distinct ?seen" using Cons.prems(1,2) x by (simp add: eq_distinct_snoc)
  moreover have "list_all hashable ?seen" using Cons.prems(2) x by simp
  ultimately show ?case using Cons.IH [OF _ _ xs] by simp
qed

lemma sortable_iff:
  "sortable xs = ((\<forall>a \<in> set xs. hashable a)
                  \<and> (\<forall>a \<in> set xs. \<forall>b \<in> set xs. py_eq a b \<or> comparable a b))"
  by (simp add: sortable_def list_all_iff)

lemma insort_py_sorted:
  assumes "\<forall>a \<in> insert x (set ys). hashable a"
    and "\<forall>a \<in> insert x (set ys). \<forall>b \<in> insert x (set ys). py_eq a b \<or> comparable a b"
    and "\<forall>y \<in> set ys. \<not> py_eq x y"
    and "sorted_wrt py_less ys"
  shows "\<exists>zs. insort_py x ys = Inr zs \<and> set zs = insert x (set ys) \<and> sorted_wrt py_less zs"
  using assms
proof (induction ys)
  case Nil
  show ?case by simp
next
  case (Cons y ys)
  from Cons.prems(1) have hx: "hashable x" and hy: "hashable y"
    and hys: "\<forall>a \<in> set ys. hashable a" by simp_all
  from Cons.prems(2,3) have c: "comparable x y" and ne: "\<not> py_eq x y" by auto
  from c obtain b where b: "py_lt x y = Inr b"
    by (auto simp: comparable_def split: sum.splits)
  show ?case
  proof (cases b)
    case True
    then have xy: "py_less x y" using b by (simp add: py_less_def)
    have "\<forall>z \<in> set ys. py_less x z"
    proof
      fix z assume z: "z \<in> set ys"
      with Cons.prems(4) have "py_less y z" by simp
      then show "py_less x z" using hys z by (intro py_less_trans [OF xy _ hx hy]) simp_all
    qed
    with xy Cons.prems(4) have "sorted_wrt py_less (x # y # ys)" by simp
    moreover have "insort_py x (y # ys) = Inr (x # y # ys)" using b True by simp
    ultimately show ?thesis by auto
  next
    case False
    then have "\<not> py_less x y" using b by (simp add: py_less_def)
    then have yx: "py_less y x" by (rule py_less_total [OF c ne _ hx hy])
    have p1: "\<forall>a \<in> insert x (set ys). hashable a" using Cons.prems(1) by simp
    have p2: "\<forall>a \<in> insert x (set ys). \<forall>b \<in> insert x (set ys). py_eq a b \<or> comparable a b"
      using Cons.prems(2) by simp
    have p3: "\<forall>y \<in> set ys. \<not> py_eq x y" using Cons.prems(3) by simp
    have p4: "sorted_wrt py_less ys" using Cons.prems(4) by simp
    from Cons.IH [OF p1 p2 p3 p4] obtain zs where zs: "insort_py x ys = Inr zs" "set zs = insert x (set ys)"
      "sorted_wrt py_less zs" by blast
    have "insort_py x (y # ys) = Inr (y # zs)" using b False zs(1) by simp
    moreover have "set (y # zs) = insert x (set (y # ys))" using zs(2) by auto
    moreover have "sorted_wrt py_less (y # zs)" using zs(2,3) yx Cons.prems(4) by auto
    ultimately show ?thesis by blast
  qed
qed

lemma sorted_py_sorted:
  assumes "eq_distinct xs" and "\<forall>a \<in> set xs. hashable a"
    and "\<forall>a \<in> set xs. \<forall>b \<in> set xs. py_eq a b \<or> comparable a b"
  shows "\<exists>zs. sorted_py xs = Inr zs \<and> set zs = set xs \<and> sorted_wrt py_less zs"
  using assms
proof (induction xs)
  case Nil
  show ?case by simp
next
  case (Cons x xs)
  have q1: "eq_distinct xs" using Cons.prems(1) by simp
  have q2: "\<forall>a \<in> set xs. hashable a" using Cons.prems(2) by simp
  have q3: "\<forall>a \<in> set xs. \<forall>b \<in> set xs. py_eq a b \<or> comparable a b"
    using Cons.prems(3) by simp
  from Cons.IH [OF q1 q2 q3] obtain ys where ys: "sorted_py xs = Inr ys" "set ys = set xs" "sorted_wrt py_less ys"
    by blast
  from Cons.prems(2) have hx: "hashable x" by simp
  have ne: "\<forall>y \<in> set ys. \<not> py_eq x y"
  proof
    fix y assume "y \<in> set ys"
    with ys(2) Cons.prems(1) have "\<not> py_eq y x" by (auto simp: py_in_list_def list_ex_iff)
    then show "\<not> py_eq x y" using py_eq_sym_hashable [OF hx, of y] by simp
  qed
  have r1: "\<forall>a \<in> insert x (set ys). hashable a" using Cons.prems(2) ys(2) by simp
  have r2: "\<forall>a \<in> insert x (set ys). \<forall>b \<in> insert x (set ys). py_eq a b \<or> comparable a b"
    using Cons.prems(3) ys(2) by simp
  from insort_py_sorted [OF r1 r2 ne ys(3)] obtain zs where "insort_py x ys = Inr zs" "set zs = insert x (set ys)"
    "sorted_wrt py_less zs" by blast
  with ys(1,2) show ?case by auto
qed

lemma sorted_wrt_py_less_distinct:
  "sorted_wrt py_less ds \<Longrightarrow> \<forall>a \<in> set ds. hashable a \<Longrightarrow> eq_distinct ds"
proof (induction ds)
  case Nil
  show ?case by simp
next
  case (Cons d ds)
  have "\<not> py_in_list d ds"
  proof
    assume "py_in_list d ds"
    then obtain y where y: "y \<in> set ds" "py_eq y d" by (auto simp: py_in_list_def list_ex_iff)
    with Cons.prems have "py_less d y" "hashable d" "hashable y" by auto
    from py_less_not_eq [OF this] have "\<not> py_eq d y" .
    with y(2) py_eq_sym_hashable [OF \<open>hashable d\<close>, of y] show False by simp
  qed
  with Cons show ?case by simp
qed

lemma aggregate_sorted:
  assumes "list_all (\<lambda>kd. days_ok (snd kd)) documents" and "sortable (all_days documents)"
  shows "\<exists>ds. aggregate documents pipeline = Inr (map (\<lambda>d. PDict [(''_id'', d)]) ds)
           \<and> sorted_wrt py_less ds \<and> eq_distinct ds
           \<and> set ds = set (first_insertion_order [] (all_days documents))"
proof -
  let ?items = "all_days documents"
  let ?days = "first_insertion_order [] ?items"
  from assms(2) have h: "list_all hashable ?items"
    and c: "\<forall>a \<in> set ?items. \<forall>b \<in> set ?items. py_eq a b \<or> comparable a b"
    by (simp_all add: sortable_iff list_all_iff)
  have cd: "collect_days documents [] = Inr ?days"
    using assms(1) h by (rule collect_days_first_insertion_order)
  have sub: "set ?days \<subseteq> set ?items" using set_first_insertion_order [of "[]" ?items] by simp
  have dist: "eq_distinct ?days" by (rule eq_distinct_first_insertion_order [OF _ _ h]) simp_all
  have hd: "\<forall>a \<in> set ?days. hashable a" using sub h by (auto simp: list_all_iff)
  have cdays: "\<forall>a \<in> set ?days. \<forall>b \<in> set ?days. py_eq a b \<or> comparable a b"
    using sub c by blast
  from sorted_py_sorted [OF dist hd cdays] obtain ds where
    ds: "sorted_py ?days = Inr ds" "set ds = set ?days" "sorted_wrt py_less ds" by blast
  have "aggregate documents pipeline = Inr (map (\<lambda>d. PDict [(''_id'', d)]) ds)"
    by (simp add: aggregate_def cd ds(1))
  moreover have "eq_distinct ds" using hd ds(2) by (intro sorted_wrt_py_less_distinct [OF ds(3)]) simp
  ultimately show ?thesis using ds(2,3) by blast
qed

lemma sorted_wrt_str_lt_distinct: "sorted_wrt str_lt ss \<Longrightarrow> distinct ss"
  by (induction ss) (auto simp: str_lt_irrefl)

lemma is_int_list: "list_all is_int xs \<Longrightarrow> \<exists>ns. xs = map PInt ns"
proof (induction xs)
  case Nil
  show ?case by simp
next
  case (Cons x xs)
  then obtain ns where "xs = map PInt ns" by auto
  moreover from Cons.prems obtain n where "x = PInt n" by (cases x) auto
  ultimately have "x # xs = map PInt (n # ns)" by simp
  then show ?case by (rule exI)
qed

lemma strings_sorted:
  assumes "list_all is_str items" and "set ds \<subseteq> set items" and "\<forall>x \<in> set items. py_in_list x ds"
    and "sorted_wrt py_less ds"
  shows "\<exists>ss. ds = map PStr ss \<and> sorted_wrt str_lt ss \<and> distinct ss \<and> PStr ` set ss = set items"
proof -
  from assms(1,2) have "list_all is_str ds" by (auto simp: list_all_iff)
  then obtain ss where ss: "ds = map PStr ss" using is_str_list by blast
  have less: "py_less (PStr a) (PStr b) = str_lt a b" for a b by (simp add: py_less_def)
  from assms(4) have s: "sorted_wrt str_lt ss" by (simp add: ss sorted_wrt_map less)
  have "set items \<subseteq> set ds"
  proof
    fix x assume x: "x \<in> set items"
    with assms(1) obtain t where t: "x = PStr t" by (cases x) (auto simp: list_all_iff)
    from x assms(3) obtain d where "d \<in> set ds" "py_eq d x"
      by (auto simp: py_in_list_def list_ex_iff)
    with t show "x \<in> set ds" by (simp add: py_eq_str_right)
  qed
  with assms(2) have "PStr ` set ss = set items" by (simp add: ss)
  with ss s sorted_wrt_str_lt_distinct [OF s] show ?thesis by blast
qed

lemma ints_sorted:
  assumes "list_all is_int items" and "set ds \<subseteq> set items" and "\<forall>x \<in> set items. py_in_list x ds"
    and "sorted_wrt py_less ds"
  shows "\<exists>ns. ds = map PInt ns \<and> sorted_wrt (<) ns \<and> distinct ns \<and> PInt ` set ns = set items"
proof -
  from assms(1,2) have "list_all is_int ds" by (auto simp: list_all_iff)
  then obtain ns where ns: "ds = map PInt ns" using is_int_list by blast
  have less: "py_less (PInt a) (PInt b) = (a < b)" for a b by (simp add: py_less_def)
  from assms(4) have s: "sorted_wrt (<) ns" by (simp add: ns sorted_wrt_map less)
  have "set items \<subseteq> set ds"
  proof
    fix x assume x: "x \<in> set items"
    with assms(1) obtain n where n: "x = PInt n" by (cases x) (auto simp: list_all_iff)
    from x assms(3) obtain d where d: "d \<in> set ds" "py_eq d x"
      by (auto simp: py_in_list_def list_ex_iff)
    from d(1) ns obtain m where "d = PInt m" by auto
    with d n show "x \<in> set ds" by simp
  qed
  with assms(2) have "PInt ` set ns = set items" by (simp add: ns)
  moreover from s have "distinct ns" by (simp add: strict_sorted_iff)
  ultimately show ?thesis using ns s by blast
qed

text \<open>
  C6 (as the code has it). In a store where every document has, under
  \<^verbatim>\<open>schedule_details.days\<close>, nothing, a false value or a list, and where the values of
  all these lists can go into a set and are pairwise equal or comparable (all strings, say,
  or all numbers), the grouping query raises nothing and yields one record
  \<^verbatim>\<open>{"_id": day}\<close> for each distinct value in the lists of all documents, in ascending
  order, no two of them equal; every value of the lists equals one of them; documents without
  the path add nothing; the pipeline is not looked at. For lists of strings the records are
  the distinct strings in lexicographic order, for lists of integers the distinct integers
  in increasing order.
\<close>

theorem aggregate_distinct_sorted_days:
  assumes "list_all (\<lambda>kd. days_ok (snd kd)) documents" and "sortable (all_days documents)"
  shows "\<exists>ds. aggregate documents pipeline = Inr (map (\<lambda>d. PDict [(''_id'', d)]) ds)
           \<and> sorted_wrt py_less ds \<and> eq_distinct ds
           \<and> set ds \<subseteq> set (all_days documents)
           \<and> (\<forall>x \<in> set (all_days documents). py_in_list x ds)
           \<and> set ds = set (first_insertion_order [] (all_days documents))
           \<and> aggregate documents pipeline' = aggregate documents pipeline
           \<and> (list_all is_str (all_days documents) \<longrightarrow>
                (\<exists>ss. ds = map PStr ss \<and> sorted_wrt str_lt ss \<and> distinct ss
                      \<and> PStr ` set ss = set (all_days documents)))
           \<and> (list_all is_int (all_days documents) \<longrightarrow>
                (\<exists>ns. ds = map PInt ns \<and> sorted_wrt (<) ns \<and> distinct ns
                      \<and> PInt ` set ns = set (all_days documents)))"
proof -
  let ?items = "all_days documents"
  from aggregate_sorted [OF assms, of pipeline] obtain ds where
    ds1: "aggregate documents pipeline = Inr (map (\<lambda>d. PDict [(''_id'', d)]) ds)"
    and ds2: "sorted_wrt py_less ds" and ds3: "eq_distinct ds"
    and ds4: "set ds = set (first_insertion_order [] ?items)" by blast
  from assms(2) have h: "list_all hashable ?items" by (simp add: sortable_def)
  have "set (first_insertion_order [] ?items) \<subseteq> set [] \<union> set ?items"
    using set_first_insertion_order [of "[]" ?items] by (rule conjunct1)
  then have sub: "set ds \<subseteq> set ?items" unfolding ds4 by simp
  have cov: "\<forall>x \<in> set ?items. py_in_list x ds"
  proof
    fix x assume x: "x \<in> set ?items"
    have "py_in_list x (first_insertion_order [] ?items)"
      using h x by (rule first_insertion_order_covers)
    then show "py_in_list x ds"
    proof (rule py_in_list_mono)
      show "set (first_insertion_order [] ?items) \<subseteq> set ds" unfolding ds4 by (rule subset_refl)
    qed
  qed
  have pip: "aggregate documents pipeline' = aggregate documents pipeline"
    by (simp add: aggregate_def)
  have str: "list_all is_str ?items \<longrightarrow>
        (\<exists>ss. ds = map PStr ss \<and> sorted_wrt str_lt ss \<and> distinct ss
                      \<and> PStr ` set ss = set ?items)"
  proof
    assume "list_all is_str ?items"
    then show "\<exists>ss. ds = map PStr ss \<and> sorted_wrt str_lt ss \<and> distinct ss
                      \<and> PStr ` set ss = set ?items"
      using sub cov ds2 by (rule strings_sorted)
  qed
  have int: "list_all is_int ?items \<longrightarrow>
        (\<exists>ns. ds = map PInt ns \<and> sorted_wrt (<) ns \<and> distinct ns
                      \<and> PInt ` set ns = set ?items)"
  proof
    assume "list_all is_int ?items"
    then show "\<exists>ns. ds = map PInt ns \<and> sorted_wrt (<) ns \<and> distinct ns
                      \<and> PInt ` set ns = set ?items"
      using sub cov ds2 by (rule ints_sorted)
  qed
  show ?thesis
    apply (rule exI [of _ ds])
    apply (rule conjI, rule ds1)
    apply (rule conjI, rule ds2)
    apply (rule conjI, rule ds3)
    apply (rule conjI, rule sub)
    apply (rule conjI, rule cov)
    apply (rule conjI, rule ds4)
    apply (rule conjI, rule pip)
    apply (rule conjI, rule str)
    apply (rule int)
    done
qed

lemmas aggregate_defs = aggregate_def days_of_def days_ok_def get_nested_value_def
  py_in_list_def all_days_def day_list_def sortable_def comparable_def

theorem aggregate_distinct_sorted_days_witness:
  "list_all (\<lambda>kd. days_ok (snd kd))
     [(PStr ''Chess Club'', PDict [(''_id'', PStr ''Chess Club''),
         (''schedule_details'', PDict [(''days'', PList [PStr ''Monday'', PStr ''Friday''])])]),
      (PStr ''Programming Class'', PDict [(''_id'', PStr ''Programming Class''),
         (''schedule_details'', PDict [(''days'', PList [PStr ''Tuesday'', PStr ''Thursday''])])]),
      (PStr ''Drama Club'', PDict [(''_id'', PStr ''Drama Club''),
         (''schedule_details'', PDict [(''days'', PList [PStr ''Monday''])])]),
      (PStr ''mchen'', PDict [(''_id'', PStr ''mchen'')])]
   \<and> sortable (all_days
     [(PStr ''Chess Club'', PDict [(''_id'', PStr ''Chess Club''),
         (''schedule_details'', PDict [(''days'', PList [PStr ''Monday'', PStr ''Friday''])])]),
      (PStr ''Programming Class'', PDict [(''_id'', PStr ''Programming Class''),
         (''schedule_details'', PDict [(''days'', PList [PStr ''Tuesday'', PStr ''Thursday''])])]),
      (PStr ''Drama Club'', PDict [(''_id'', PStr ''Drama Club''),
         (''schedule_details'', PDict [(''days'', PList [PStr ''Monday''])])]),
      (PStr ''mchen'', PDict [(''_id'', PStr ''mchen'')])])
   \<and> aggregate
     [(PStr ''Chess Club'', PDict [(''_id'', PStr ''Chess Club''),
         (''schedule_details'', PDict [(''days'', PList [PStr ''Monday'', PStr ''Friday''])])]),
      (PStr ''Programming Class'', PDict [(''_id'', PStr ''Programming Class''),
         (''schedule_details'', PDict [(''days'', PList [PStr ''Tuesday'', PStr ''Thursday''])])]),
      (PStr ''Drama Club'', PDict [(''_id'', PStr ''Drama Club''),
         (''schedule_details'', PDict [(''days'', PList [PStr ''Monday''])])]),
      (PStr ''mchen'', PDict [(''_id'', PStr ''mchen'')])] []
     = Inr [PDict [(''_id'', PStr ''Friday'')], PDict [(''_id'', PStr ''Monday'')],
            PDict [(''_id'', PStr ''Thursday'')], PDict [(''_id'', PStr ''Tuesday'')]]
   \<and> sortable (all_days
     [(PStr ''a'', PDict [(''schedule_details'', PDict [(''days'', PList [PInt 3, PInt 1])])]),
      (PStr ''b'', PDict [(''schedule_details'', PDict [(''days'', PList [PInt 2, PInt 1])])])])
   \<and> aggregate
     [(PStr ''a'', PDict [(''schedule_details'', PDict [(''days'', PList [PInt 3, PInt 1])])]),
      (PStr ''b'', PDict [(''schedule_details'', PDict [(''days'', PList [PInt 2, PInt 1])])])] []
     = Inr [PDict [(''_id'', PInt 1)], PDict [(''_id'', PInt 2)], PDict [(''_id'', PInt 3)]]"
  using aggregate_distinct_sorted_days
    [of "[(PStr ''Chess Club'', PDict [(''_id'', PStr ''Chess Club''),
         (''schedule_details'', PDict [(''days'', PList [PStr ''Monday'', PStr ''Friday''])])]),
      (PStr ''Programming Class'', PDict [(''_id'', PStr ''Programming Class''),
         (''schedule_details'', PDict [(''days'', PList [PStr ''Tuesday'', PStr ''Thursday''])])]),
      (PStr ''Drama Club'', PDict [(''_id'', PStr ''Drama Club''),
         (''schedule_details'', PDict [(''days'', PList [PStr ''Monday''])])]),
      (PStr ''mchen'', PDict [(''_id'', PStr ''mchen'')])]" "[]" "[]"]
    aggregate_distinct_sorted_days
    [of "[(PStr ''a'', PDict [(''schedule_details'', PDict [(''days'', PList [PInt 3, PInt 1])])]),
      (PStr ''b'', PDict [(''schedule_details'', PDict [(''days'', PList [PInt 2, PInt 1])])])]"
      "[]" "[]"]
  by (simp add: aggregate_defs)

text \<open>
  C6 as stated fails: a document whose \<^verbatim>\<open>schedule_details.days\<close> is the number 5, not
  a list, makes the grouping query raise \<^verbatim>\<open>TypeError\<close>; so does a list that holds a
  number and a string, which \<^verbatim>\<open>sorted\<close> cannot compare, and a list that holds a list,
  which cannot go into a set.
\<close>

theorem aggregate_non_list_raises:
  "\<not> is_list (get_nested_value
        (PDict [(''_id'', PStr ''Chess Club''), (''schedule_details'', PDict [(''days'', PInt 5)])])
        ''schedule_details.days'')
   \<and> aggregate
        [(PStr ''Chess Club'',
          PDict [(''_id'', PStr ''Chess Club''), (''schedule_details'', PDict [(''days'', PInt 5)])])]
        [] = Inl TypeError
   \<and> aggregate
        [(PStr ''Chess Club'',
          PDict [(''_id'', PStr ''Chess Club''),
                 (''schedule_details'', PDict [(''days'', PList [PInt 1, PStr ''Monday''])])])]
        [] = Inl TypeError
   \<and> aggregate
        [(PStr ''Chess Club'',
          PDict [(''_id'', PStr ''Chess Club''),
                 (''schedule_details'', PDict [(''days'', PList [PList [PInt 1]])])])]
        [] = Inl TypeError"
  by (simp add: aggregate_defs)

section \<open>Properties of the store with object identities\<close>

lemma read_fuel_mono:
  "read n h v = Some t \<Longrightarrow> n \<le> m \<Longrightarrow> read m h v = Some t"
  "read_list n h vs = Some ts \<Longrightarrow> n \<le> m \<Longrightarrow> read_list m h vs = Some ts"
  "read_items n h kvs = Some kts \<Longrightarrow> n \<le> m \<Longrightarrow> read_items m h kvs = Some kts"
proof (induction n h v and n h vs and n h kvs arbitrary: t m and ts m and kts m
       rule: read_read_list_read_items.induct)
  case (6 n h a)
  from "6.prems" obtain m' where m: "m = Suc m'" "n \<le> m'" by (cases m) auto
  from "6.prems"(1) have a: "a < length h" by (auto split: if_splits)
  show ?case
  proof (cases "h ! a")
    case (HList vs)
    with "6.prems"(1) a obtain ts where "read_list n h vs = Some ts" "t = PList ts" by auto
    with "6.IH"(1) [OF a HList _ m(2)] show ?thesis using a HList m by simp
  next
    case (HDict kvs)
    with "6.prems"(1) a obtain kts where "read_items n h kvs = Some kts" "t = PDict kts" by auto
    with "6.IH"(2) [OF a HDict _ m(2)] show ?thesis using a HDict m by simp
  qed
next
  case (8 n h v vs)
  from "8.prems"(1) obtain t' ts' where
    r: "read n h v = Some t'" "read_list n h vs = Some ts'" "ts = t' # ts'"
    by (auto split: option.splits)
  from "8.IH"(1) [OF r(1) "8.prems"(2)] "8.IH"(2) [OF r(1) r(2) "8.prems"(2)] r(3)
  show ?case by simp
next
  case (10 n h k v kvs)
  from "10.prems"(1) obtain t' kts' where
    r: "read n h v = Some t'" "read_items n h kvs = Some kts'" "kts = (k, t') # kts'"
    by (auto split: option.splits)
  from "10.IH"(1) [OF r(1) "10.prems"(2)] "10.IH"(2) [OF r(1) r(2) "10.prems"(2)] r(3)
  show ?case by simp
qed auto

lemma reach_child:
  assumes "a < length h" and "v' \<in> set (refs_of (h ! a))" and "b \<in> reach h v'"
  shows "b \<in> reach h (HRef a)"
  using assms(3)
proof (induction rule: reach.induct)
  case (root c)
  have "a \<in> reach h (HRef a)" by (rule reach.root) simp
  then show ?case using assms(1,2) root by (auto intro: reach.step)
next
  case (step c d)
  then show ?case by (auto intro: reach.step)
qed

lemma read_frame:
  "read n h v = Some t \<Longrightarrow>
   (\<forall>a \<in> reach h v. a < length h \<longrightarrow> a < length h2 \<and> h2 ! a = h ! a) \<Longrightarrow>
   read n h2 v = Some t"
  "read_list n h vs = Some ts \<Longrightarrow>
   (\<forall>v \<in> set vs. \<forall>a \<in> reach h v. a < length h \<longrightarrow> a < length h2 \<and> h2 ! a = h ! a) \<Longrightarrow>
   read_list n h2 vs = Some ts"
  "read_items n h kvs = Some kts \<Longrightarrow>
   (\<forall>v \<in> set (map snd kvs). \<forall>a \<in> reach h v. a < length h \<longrightarrow> a < length h2 \<and> h2 ! a = h ! a) \<Longrightarrow>
   read_items n h2 kvs = Some kts"
proof (induction n h v and n h vs and n h kvs arbitrary: t and ts and kts
       rule: read_read_list_read_items.induct)
  case (6 n h a)
  from "6.prems"(1) have a: "a < length h" by (auto split: if_splits)
  have "a \<in> reach h (HRef a)" by (rule reach.root) simp
  with "6.prems"(2) a have a2: "a < length h2" "h2 ! a = h ! a" by auto
  have sub: "\<forall>v \<in> set (refs_of (h ! a)). \<forall>b \<in> reach h v.
      b < length h \<longrightarrow> b < length h2 \<and> h2 ! b = h ! b"
    using "6.prems"(2) reach_child [OF a] by blast
  show ?case
  proof (cases "h ! a")
    case (HList vs)
    with "6.prems"(1) a obtain ts where r: "read_list n h vs = Some ts" "t = PList ts" by auto
    from sub HList have "\<forall>v \<in> set vs. \<forall>b \<in> reach h v.
      b < length h \<longrightarrow> b < length h2 \<and> h2 ! b = h ! b" by simp
    from "6.IH"(1) [OF a HList r(1) this] show ?thesis using a2 HList r(2) by simp
  next
    case (HDict kvs)
    with "6.prems"(1) a obtain kts where r: "read_items n h kvs = Some kts" "t = PDict kts" by auto
    from sub HDict have "\<forall>v \<in> set (map snd kvs). \<forall>b \<in> reach h v.
      b < length h \<longrightarrow> b < length h2 \<and> h2 ! b = h ! b" by simp
    from "6.IH"(2) [OF a HDict r(1) this] show ?thesis using a2 HDict r(2) by simp
  qed
next
  case (8 n h v vs)
  from "8.prems"(1) obtain t' ts' where
    r: "read n h v = Some t'" "read_list n h vs = Some ts'" "ts = t' # ts'"
    by (auto split: option.splits)
  have "read n h2 v = Some t'" using "8.IH"(1) [OF r(1)] "8.prems"(2) by simp
  moreover have "read_list n h2 vs = Some ts'" using "8.IH"(2) [OF r(1) r(2)] "8.prems"(2) by simp
  ultimately show ?case using r(3) by simp
next
  case (10 n h k v kvs)
  from "10.prems"(1) obtain t' kts' where
    r: "read n h v = Some t'" "read_items n h kvs = Some kts'" "kts = (k, t') # kts'"
    by (auto split: option.splits)
  have "read n h2 v = Some t'" using "10.IH"(1) [OF r(1)] "10.prems"(2) by simp
  moreover have "read_items n h2 kvs = Some kts'"
    using "10.IH"(2) [OF r(1) r(2)] "10.prems"(2) by simp
  ultimately show ?case using r(3) by simp
qed auto

lemma read_append:
  "read n h v = Some t \<Longrightarrow> read n (h @ ext) v = Some t"
  by (erule read_frame(1)) (simp add: nth_append)

lemma read_list_append:
  "read_list n h vs = Some ts \<Longrightarrow> read_list n (h @ ext) vs = Some ts"
  by (erule read_frame(2)) (simp add: nth_append)

lemma read_items_append:
  "read_items n h kvs = Some kts \<Longrightarrow> read_items n (h @ ext) kvs = Some kts"
  by (erule read_frame(3)) (simp add: nth_append)

lemma read_update:
  assumes "read n h v = Some t" and "a \<notin> reach h v"
  shows "read n (h[a := obj]) v = Some t"
proof (rule read_frame(1) [OF assms(1)], intro ballI impI)
  fix b assume "b \<in> reach h v" "b < length h"
  with assms(2) have "a \<noteq> b" by auto
  then show "b < length (h[a := obj]) \<and> h[a := obj] ! b = h ! b"
    using \<open>b < length h\<close> by simp
qed

lemma read_tree_append:
  "read_tree h v = Some t \<Longrightarrow> read_tree (h @ ext) v = Some t"
proof -
  assume "read_tree h v = Some t"
  then have "read (length h) (h @ ext) v = Some t"
    by (simp add: read_tree_def read_append)
  then have "read (length (h @ ext)) (h @ ext) v = Some t"
    by (rule read_fuel_mono(1)) simp
  then show ?thesis by (simp add: read_tree_def)
qed

lemma read_tree_update:
  "read_tree h v = Some t \<Longrightarrow> a \<notin> reach h v \<Longrightarrow> read_tree (h[a := obj]) v = Some t"
  unfolding read_tree_def by (simp add: read_update)

lemma alloc_extends:
  "alloc h t = (h', v) \<Longrightarrow> \<exists>ext. h' = h @ ext"
  "alloc_list h ts = (h', vs) \<Longrightarrow> \<exists>ext. h' = h @ ext"
  "alloc_items h kts = (h', kvs) \<Longrightarrow> \<exists>ext. h' = h @ ext"
proof (induction h t and h ts and h kts arbitrary: h' v and h' vs and h' kvs
       rule: alloc_alloc_list_alloc_items.induct)
  case (5 h xs)
  obtain h1 vs where a: "alloc_list h xs = (h1, vs)" by (cases "alloc_list h xs")
  from "5.IH" [OF a] obtain ext where "h1 = h @ ext" by blast
  with "5.prems" a have "h' = h @ (ext @ [HList vs])" by simp
  then show ?case by blast
next
  case (6 h kts)
  obtain h1 kvs where a: "alloc_items h kts = (h1, kvs)" by (cases "alloc_items h kts")
  from "6.IH" [OF a] obtain ext where "h1 = h @ ext" by blast
  with "6.prems" a have "h' = h @ (ext @ [HDict kvs])" by simp
  then show ?case by blast
next
  case (8 h x xs)
  obtain h1 v1 where a: "alloc h x = (h1, v1)" by (cases "alloc h x")
  obtain h2 vs2 where b: "alloc_list h1 xs = (h2, vs2)" by (cases "alloc_list h1 xs")
  from "8.IH"(1) [OF a] obtain e1 where e1: "h1 = h @ e1" by blast
  from "8.IH"(2) [OF a [symmetric] b] obtain e2 where e2: "h2 = h1 @ e2" by blast
  from "8.prems" a b have "h' = h2" by simp
  with e1 e2 have "h' = h @ (e1 @ e2)" by simp
  then show ?case by blast
next
  case (10 h k x kts)
  obtain h1 v1 where a: "alloc h x = (h1, v1)" by (cases "alloc h x")
  obtain h2 kvs2 where b: "alloc_items h1 kts = (h2, kvs2)" by (cases "alloc_items h1 kts")
  from "10.IH"(1) [OF a] obtain e1 where e1: "h1 = h @ e1" by blast
  from "10.IH"(2) [OF a [symmetric] b] obtain e2 where e2: "h2 = h1 @ e2" by blast
  from "10.prems" a b have "h' = h2" by simp
  with e1 e2 have "h' = h @ (e1 @ e2)" by simp
  then show ?case by blast
qed auto

lemma alloc_length:
  "alloc h t = (h', v) \<Longrightarrow> length h + height t \<le> length h'"
  "alloc_list h ts = (h', vs) \<Longrightarrow> length h + height_list ts \<le> length h'"
  "alloc_items h kts = (h', kvs) \<Longrightarrow> length h + height_items kts \<le> length h'"
proof (induction h t and h ts and h kts arbitrary: h' v and h' vs and h' kvs
       rule: alloc_alloc_list_alloc_items.induct)
  case (5 h xs)
  obtain h1 vs where a: "alloc_list h xs = (h1, vs)" by (cases "alloc_list h xs")
  from "5.IH" [OF a] "5.prems" a show ?case by auto
next
  case (6 h kts)
  obtain h1 kvs where a: "alloc_items h kts = (h1, kvs)" by (cases "alloc_items h kts")
  from "6.IH" [OF a] "6.prems" a show ?case by auto
next
  case (8 h x xs)
  obtain h1 v1 where a: "alloc h x = (h1, v1)" by (cases "alloc h x")
  obtain h2 vs2 where b: "alloc_list h1 xs = (h2, vs2)" by (cases "alloc_list h1 xs")
  from "8.IH"(1) [OF a] "8.IH"(2) [OF a [symmetric] b] "8.prems" a b show ?case by auto
next
  case (10 h k x kts)
  obtain h1 v1 where a: "alloc h x = (h1, v1)" by (cases "alloc h x")
  obtain h2 kvs2 where b: "alloc_items h1 kts = (h2, kvs2)" by (cases "alloc_items h1 kts")
  from "10.IH"(1) [OF a] "10.IH"(2) [OF a [symmetric] b] "10.prems" a b show ?case by auto
qed auto

lemma alloc_read:
  "alloc h t = (h', v) \<Longrightarrow> read (height t) h' v = Some t"
  "alloc_list h ts = (h', vs) \<Longrightarrow> read_list (height_list ts) h' vs = Some ts"
  "alloc_items h kts = (h', kvs) \<Longrightarrow> read_items (height_items kts) h' kvs = Some kts"
proof (induction h t and h ts and h kts arbitrary: h' v and h' vs and h' kvs
       rule: alloc_alloc_list_alloc_items.induct)
  case (5 h xs)
  obtain h1 vs where a: "alloc_list h xs = (h1, vs)" by (cases "alloc_list h xs")
  from "5.IH" [OF a] have "read_list (height_list xs) (h1 @ [HList vs]) vs = Some xs"
    by (rule read_list_append)
  with "5.prems" a show ?case by auto
next
  case (6 h kts)
  obtain h1 kvs where a: "alloc_items h kts = (h1, kvs)" by (cases "alloc_items h kts")
  from "6.IH" [OF a] have "read_items (height_items kts) (h1 @ [HDict kvs]) kvs = Some kts"
    by (rule read_items_append)
  with "6.prems" a show ?case by auto
next
  case (8 h x xs)
  obtain h1 v1 where a: "alloc h x = (h1, v1)" by (cases "alloc h x")
  obtain h2 vs2 where b: "alloc_list h1 xs = (h2, vs2)" by (cases "alloc_list h1 xs")
  from alloc_extends(2) [OF b] obtain e2 where e2: "h2 = h1 @ e2" by blast
  from "8.IH"(1) [OF a] have "read (height x) h2 v1 = Some x"
    unfolding e2 by (rule read_append)
  then have 1: "read (height_list (x # xs)) h2 v1 = Some x"
    by (rule read_fuel_mono(1)) simp
  from "8.IH"(2) [OF a [symmetric] b] have 2: "read_list (height_list (x # xs)) h2 vs2 = Some xs"
    by (rule read_fuel_mono(2)) simp
  from "8.prems" a b have "h' = h2" "vs = v1 # vs2" by auto
  with 1 2 show ?case by simp
next
  case (10 h k x kts)
  obtain h1 v1 where a: "alloc h x = (h1, v1)" by (cases "alloc h x")
  obtain h2 kvs2 where b: "alloc_items h1 kts = (h2, kvs2)" by (cases "alloc_items h1 kts")
  from alloc_extends(3) [OF b] obtain e2 where e2: "h2 = h1 @ e2" by blast
  from "10.IH"(1) [OF a] have "read (height x) h2 v1 = Some x"
    unfolding e2 by (rule read_append)
  then have 1: "read (height_items ((k, x) # kts)) h2 v1 = Some x"
    by (rule read_fuel_mono(1)) simp
  from "10.IH"(2) [OF a [symmetric] b]
  have 2: "read_items (height_items ((k, x) # kts)) h2 kvs2 = Some kts"
    by (rule read_fuel_mono(3)) simp
  from "10.prems" a b have "h' = h2" "kvs = (k, v1) # kvs2" by auto
  with 1 2 show ?case by simp
qed auto

lemma read_tree_alloc: "alloc h t = (h', v) \<Longrightarrow> read_tree h' v = Some t"
proof -
  assume a: "alloc h t = (h', v)"
  from alloc_length(1) [OF a] have "height t \<le> length h'" by simp
  with alloc_read(1) [OF a] show ?thesis
    unfolding read_tree_def by (rule read_fuel_mono(1))
qed

lemma in_range_mono: "in_range lo hi vs \<Longrightarrow> lo' \<le> lo \<Longrightarrow> hi \<le> hi' \<Longrightarrow> in_range lo' hi' vs"
  by (fastforce simp: in_range_def)

lemma in_range_Cons: "in_range lo hi (v # vs) = (in_range lo hi [v] \<and> in_range lo hi vs)"
  by (auto simp: in_range_def)

lemma closed_from_snoc:
  assumes "closed_from lo h" and "in_range lo (length h) (refs_of obj)" and "lo \<le> length h"
  shows "closed_from lo (h @ [obj])"
  unfolding closed_from_def
proof (intro allI impI)
  fix a assume a: "lo \<le> a \<and> a < length (h @ [obj])"
  show "in_range lo (length (h @ [obj])) (refs_of ((h @ [obj]) ! a))"
  proof (cases "a < length h")
    case True
    with assms(1) a have "in_range lo (length h) (refs_of (h ! a))" by (simp add: closed_from_def)
    then show ?thesis using True by (auto simp: nth_append intro: in_range_mono)
  next
    case False
    with a have "a = length h" by simp
    then show ?thesis using assms(2) by (auto intro: in_range_mono)
  qed
qed

lemma closed_from_append:
  assumes "closed_from lo h1" and "closed_from (length h1) (h1 @ e2)" and "lo \<le> length h1"
  shows "closed_from lo (h1 @ e2)"
  unfolding closed_from_def
proof (intro allI impI)
  fix a assume a: "lo \<le> a \<and> a < length (h1 @ e2)"
  show "in_range lo (length (h1 @ e2)) (refs_of ((h1 @ e2) ! a))"
  proof (cases "a < length h1")
    case True
    with assms(1) a have "in_range lo (length h1) (refs_of (h1 ! a))" by (simp add: closed_from_def)
    then show ?thesis using True by (auto simp: nth_append intro: in_range_mono)
  next
    case False
    with assms(2) a have "in_range (length h1) (length (h1 @ e2)) (refs_of ((h1 @ e2) ! a))"
      by (simp add: closed_from_def)
    then show ?thesis using assms(3) by (auto intro: in_range_mono)
  qed
qed

lemma alloc_fresh:
  "alloc h t = (h', v) \<Longrightarrow> in_range (length h) (length h') [v] \<and> closed_from (length h) h'"
  "alloc_list h ts = (h', vs) \<Longrightarrow> in_range (length h) (length h') vs \<and> closed_from (length h) h'"
  "alloc_items h kts = (h', kvs) \<Longrightarrow>
     in_range (length h) (length h') (map snd kvs) \<and> closed_from (length h) h'"
proof (induction h t and h ts and h kts arbitrary: h' v and h' vs and h' kvs
       rule: alloc_alloc_list_alloc_items.induct)
  case (5 h xs)
  obtain h1 vs where a: "alloc_list h xs = (h1, vs)" by (cases "alloc_list h xs")
  from alloc_extends(2) [OF a] have le: "length h \<le> length h1" by auto
  from "5.IH" [OF a] have i: "in_range (length h) (length h1) vs" and c: "closed_from (length h) h1"
    by simp_all
  have "closed_from (length h) (h1 @ [HList vs])"
    by (rule closed_from_snoc [OF c _ le]) (simp add: i)
  moreover have "in_range (length h) (length (h1 @ [HList vs])) [HRef (length h1)]"
    using le by (simp add: in_range_def)
  moreover from "5.prems" a have "h' = h1 @ [HList vs]" "v = HRef (length h1)" by auto
  ultimately show ?case by simp
next
  case (6 h kts)
  obtain h1 kvs where a: "alloc_items h kts = (h1, kvs)" by (cases "alloc_items h kts")
  from alloc_extends(3) [OF a] have le: "length h \<le> length h1" by auto
  from "6.IH" [OF a] have i: "in_range (length h) (length h1) (map snd kvs)"
    and c: "closed_from (length h) h1" by simp_all
  have "closed_from (length h) (h1 @ [HDict kvs])"
    by (rule closed_from_snoc [OF c _ le]) (simp add: i)
  moreover have "in_range (length h) (length (h1 @ [HDict kvs])) [HRef (length h1)]"
    using le by (simp add: in_range_def)
  moreover from "6.prems" a have "h' = h1 @ [HDict kvs]" "v = HRef (length h1)" by auto
  ultimately show ?case by simp
next
  case (8 h x xs)
  obtain h1 v1 where a: "alloc h x = (h1, v1)" by (cases "alloc h x")
  obtain h2 vs2 where b: "alloc_list h1 xs = (h2, vs2)" by (cases "alloc_list h1 xs")
  from alloc_extends(1) [OF a] have le1: "length h \<le> length h1" by auto
  from alloc_extends(2) [OF b] obtain e2 where e2: "h2 = h1 @ e2" by blast
  from "8.IH"(1) [OF a] have i1: "in_range (length h) (length h1) [v1]"
    and c1: "closed_from (length h) h1" by simp_all
  from "8.IH"(2) [OF a [symmetric] b] have i2: "in_range (length h1) (length h2) vs2"
    and c2: "closed_from (length h1) h2" by simp_all
  have le2: "length h1 \<le> length h2" by (simp add: e2)
  from c2 have c2': "closed_from (length h1) (h1 @ e2)" unfolding e2 .
  have "closed_from (length h) (h1 @ e2)" by (rule closed_from_append [OF c1 c2' le1])
  then have c: "closed_from (length h) h2" unfolding e2 .
  have "in_range (length h) (length h2) [v1]" using i1 le2 by (rule in_range_mono [OF _ order_refl])
  moreover have "in_range (length h) (length h2) vs2" using i2 le1 by (rule in_range_mono [OF _ _ order_refl])
  ultimately have i: "in_range (length h) (length h2) (v1 # vs2)" by (subst in_range_Cons) simp
  from "8.prems" a b have "h' = h2" "vs = v1 # vs2" by auto
  with c i show ?case by simp
next
  case (10 h k x kts)
  obtain h1 v1 where a: "alloc h x = (h1, v1)" by (cases "alloc h x")
  obtain h2 kvs2 where b: "alloc_items h1 kts = (h2, kvs2)" by (cases "alloc_items h1 kts")
  from alloc_extends(1) [OF a] have le1: "length h \<le> length h1" by auto
  from alloc_extends(3) [OF b] obtain e2 where e2: "h2 = h1 @ e2" by blast
  from "10.IH"(1) [OF a] have i1: "in_range (length h) (length h1) [v1]"
    and c1: "closed_from (length h) h1" by simp_all
  from "10.IH"(2) [OF a [symmetric] b] have i2: "in_range (length h1) (length h2) (map snd kvs2)"
    and c2: "closed_from (length h1) h2" by simp_all
  have le2: "length h1 \<le> length h2" by (simp add: e2)
  from c2 have c2': "closed_from (length h1) (h1 @ e2)" unfolding e2 .
  have "closed_from (length h) (h1 @ e2)" by (rule closed_from_append [OF c1 c2' le1])
  then have c: "closed_from (length h) h2" unfolding e2 .
  have "in_range (length h) (length h2) [v1]" using i1 le2 by (rule in_range_mono [OF _ order_refl])
  moreover have "in_range (length h) (length h2) (map snd kvs2)"
    using i2 le1 by (rule in_range_mono [OF _ _ order_refl])
  ultimately have i: "in_range (length h) (length h2) (v1 # map snd kvs2)"
    by (subst in_range_Cons) simp
  from "10.prems" a b have "h' = h2" "kvs = (k, v1) # kvs2" by auto
  with c i show ?case by simp
qed (auto simp: in_range_def closed_from_def)

lemma reach_alloc:
  assumes "alloc h t = (h', v)" and "a \<in> reach h' v"
  shows "length h \<le> a \<and> a < length h'"
proof -
  from alloc_fresh(1) [OF assms(1)] have i: "in_range (length h) (length h') [v]"
    and c: "closed_from (length h) h'" by blast+
  from assms(2) show ?thesis
  proof (induction rule: reach.induct)
    case (root a)
    with i show ?case unfolding in_range_def by simp
  next
    case (step a b)
    with c have "in_range (length h) (length h') (refs_of (h' ! a))"
      unfolding closed_from_def by blast
    with step(3) show ?case unfolding in_range_def by blast
  qed
qed

lemma read_list_member:
  "read_list n h vs = Some ts \<Longrightarrow> v \<in> set vs \<Longrightarrow> \<exists>t. read n h v = Some t"
  by (induction vs arbitrary: ts) (auto split: option.splits)

lemma read_items_member:
  "read_items n h kvs = Some kts \<Longrightarrow> (k, v) \<in> set kvs \<Longrightarrow> \<exists>t. read n h v = Some t"
  by (induction kvs arbitrary: kts) (auto split: option.splits)

lemma read_Ref_bound: "read n h (HRef a) = Some t \<Longrightarrow> a < length h"
  by (cases n) (auto split: if_splits)

lemma reach_readable:
  assumes "read n h w = Some t" and "a \<in> reach h w"
  shows "\<exists>m t'. read m h (HRef a) = Some t'"
  using assms(2)
proof (induction rule: reach.induct)
  case (root a)
  with assms(1) show ?case by blast
next
  case (step a b)
  then obtain m t' where r: "read m h (HRef a) = Some t'" by blast
  then obtain m' where m: "m = Suc m'" by (cases m) auto
  show ?case
  proof (cases "h ! a")
    case (HList vs)
    with r m step(2) obtain ts where "read_list m' h vs = Some ts" by auto
    moreover from step(3) HList have "HRef b \<in> set vs" by simp
    ultimately obtain t'' where "read m' h (HRef b) = Some t''"
      using read_list_member by blast
    then show ?thesis by blast
  next
    case (HDict kvs)
    with r m step(2) obtain kts where "read_items m' h kvs = Some kts" by auto
    moreover from step(3) HDict obtain k where "(k, HRef b) \<in> set kvs" by auto
    ultimately obtain t'' where "read m' h (HRef b) = Some t''"
      using read_items_member by blast
    then show ?thesis by blast
  qed
qed

lemma reach_in_bounds:
  "read n h w = Some t \<Longrightarrow> a \<in> reach h w \<Longrightarrow> a < length h"
  using reach_readable read_Ref_bound by blast

lemma reach_append:
  assumes "\<forall>a \<in> reach h v. a < length h"
  shows "reach (h @ ext) v = reach h v"
proof (intro set_eqI iffI)
  fix b assume "b \<in> reach (h @ ext) v"
  then show "b \<in> reach h v"
  proof (induction rule: reach.induct)
    case (root a)
    then show ?case by (rule reach.root)
  next
    case (step a b)
    from step(4) assms have a: "a < length h" by blast
    with step(3) have "HRef b \<in> set (refs_of (h ! a))" by (simp add: nth_append)
    with step(4) a show ?case by (rule reach.step)
  qed
next
  fix b assume "b \<in> reach h v"
  then show "b \<in> reach (h @ ext) v"
  proof (induction rule: reach.induct)
    case (root a)
    then show ?case by (rule reach.root)
  next
    case (step a b)
    from step(3,2) have r: "HRef b \<in> set (refs_of ((h @ ext) ! a))" by (simp add: nth_append)
    from step(2) have l: "a < length (h @ ext)" by simp
    show ?case by (rule reach.step [OF step(4) l r])
  qed
qed

lemma reach_update:
  assumes "a \<notin> reach h v"
  shows "reach (h[a := obj]) v = reach h v"
proof (intro set_eqI iffI)
  fix b assume "b \<in> reach (h[a := obj]) v"
  then show "b \<in> reach h v"
  proof (induction rule: reach.induct)
    case (root c)
    then show ?case by (rule reach.root)
  next
    case (step c b)
    from step(4) assms have "c \<noteq> a" by blast
    with step(2,3) have l: "c < length h" and r: "HRef b \<in> set (refs_of (h ! c))" by simp_all
    show ?case by (rule reach.step [OF step(4) l r])
  qed
next
  fix b assume "b \<in> reach h v"
  then show "b \<in> reach (h[a := obj]) v"
  proof (induction rule: reach.induct)
    case (root c)
    then show ?case by (rule reach.root)
  next
    case (step c b)
    from step(1) assms have "c \<noteq> a" by blast
    with step(2,3) have l: "c < length (h[a := obj])"
      and r: "HRef b \<in> set (refs_of (h[a := obj] ! c))" by simp_all
    show ?case by (rule reach.step [OF step(4) l r])
  qed
qed

lemma read_functional:
  assumes "read n h v = Some t" and "read m h v = Some t'"
  shows "t = t'"
proof -
  from read_fuel_mono(1) [OF assms(1), of "max n m"] have "read (max n m) h v = Some t" by simp
  moreover from read_fuel_mono(1) [OF assms(2), of "max n m"]
  have "read (max n m) h v = Some t'" by simp
  ultimately show ?thesis by simp
qed

lemma read_list_member_tree:
  "read_list n h vs = Some ts \<Longrightarrow> v \<in> set vs \<Longrightarrow> \<exists>t. read n h v = Some t \<and> t \<in> set ts"
  by (induction vs arbitrary: ts) (auto split: option.splits)

lemma read_items_member_tree:
  "read_items n h kvs = Some kts \<Longrightarrow> (k, v) \<in> set kvs \<Longrightarrow>
   \<exists>t. read n h v = Some t \<and> (k, t) \<in> set kts"
  by (induction kvs arbitrary: kts) (auto split: option.splits)

lemma size_list_member: "t \<in> set ts \<Longrightarrow> size t < size (PList ts)"
  by (induction ts) auto

lemma size_items_member: "(k, t) \<in> set kts \<Longrightarrow> size t < size (PDict kts)"
  by (induction kts) auto

lemma read_child:
  assumes "read n h (HRef a) = Some t" and "c \<in> set (refs_of (h ! a))"
  shows "\<exists>m tc. n = Suc m \<and> read m h c = Some tc \<and> size tc < size t"
proof -
  from assms(1) obtain m where m: "n = Suc m" and a: "a < length h"
    by (cases n) (auto split: if_splits)
  show ?thesis
  proof (cases "h ! a")
    case (HList vs)
    with assms(1) m a obtain ts where ts: "read_list m h vs = Some ts" "t = PList ts" by auto
    from assms(2) HList have "c \<in> set vs" by simp
    from read_list_member_tree [OF ts(1) this] obtain tc where
      "read m h c = Some tc" "tc \<in> set ts" by blast
    with m ts(2) size_list_member show ?thesis by blast
  next
    case (HDict kvs)
    with assms(1) m a obtain kts where kts: "read_items m h kvs = Some kts" "t = PDict kts"
      by auto
    from assms(2) HDict obtain k where "(k, c) \<in> set kvs" by auto
    from read_items_member_tree [OF kts(1) this] obtain tc where
      "read m h c = Some tc" "(k, tc) \<in> set kts" by blast
    with m kts(2) size_items_member show ?thesis by blast
  qed
qed

lemma reach_subtree:
  assumes "read n h w = Some tw" and "b \<in> reach h w"
  shows "\<exists>m tb. read m h (HRef b) = Some tb \<and> size tb \<le> size tw"
  using assms(2)
proof (induction rule: reach.induct)
  case (root a)
  with assms(1) show ?case by blast
next
  case (step a b)
  then obtain m ta where ta: "read m h (HRef a) = Some ta" "size ta \<le> size tw" by blast
  from read_child [OF ta(1) step(3)] obtain m' tb where
    "read m' h (HRef b) = Some tb" "size tb < size ta" by blast
  with ta(2) show ?case by (intro exI [of _ m'] exI [of _ tb]) simp
qed

lemma child_acyclic:
  assumes "read n h (HRef a) = Some t" and "c \<in> set (refs_of (h ! a))"
  shows "a \<notin> reach h c"
proof
  assume r: "a \<in> reach h c"
  from read_child [OF assms] obtain m tc where
    tc: "read m h c = Some tc" "size tc < size t" by blast
  from reach_subtree [OF tc(1) r] obtain m' ta where
    ta: "read m' h (HRef a) = Some ta" "size ta \<le> size tc" by blast
  from read_functional [OF assms(1) ta(1)] have "t = ta" .
  with tc(2) ta(2) show False by simp
qed

lemma finite_reach: "read n h v = Some t \<Longrightarrow> finite (reach h v)"
proof -
  assume "read n h v = Some t"
  then have "reach h v \<subseteq> {..<length h}" using reach_in_bounds by blast
  then show ?thesis by (rule finite_subset) simp
qed

lemma card_reach_bound: "read n h v = Some t \<Longrightarrow> card (reach h v) \<le> length h"
proof -
  assume "read n h v = Some t"
  then have "reach h v \<subseteq> {..<length h}" using reach_in_bounds by blast
  then have "card (reach h v) \<le> card {..<length h}" by (intro card_mono) simp_all
  then show ?thesis by simp
qed

lemma card_reach_child:
  assumes "read n h (HRef a) = Some t" and "c \<in> set (refs_of (h ! a))"
  shows "card (reach h c) < card (reach h (HRef a))"
proof -
  from assms(1) have a: "a < length h" by (rule read_Ref_bound)
  have sub: "reach h c \<subseteq> reach h (HRef a)" using reach_child [OF a assms(2)] by blast
  have "a \<in> reach h (HRef a)" by (rule reach.root) simp
  moreover have "a \<notin> reach h c" using assms by (rule child_acyclic)
  ultimately have "reach h c \<subset> reach h (HRef a)" using sub by blast
  then show ?thesis using finite_reach [OF assms(1)] by (intro psubset_card_mono)
qed

lemma read_list_lift:
  "read_list n h vs = Some ts \<Longrightarrow>
   (\<And>v t. v \<in> set vs \<Longrightarrow> read n h v = Some t \<Longrightarrow> read k h v = Some t) \<Longrightarrow>
   read_list k h vs = Some ts"
  by (induction vs arbitrary: ts) (auto split: option.splits)

lemma read_items_lift:
  "read_items n h kvs = Some kts \<Longrightarrow>
   (\<And>v t. v \<in> set (map snd kvs) \<Longrightarrow> read n h v = Some t \<Longrightarrow> read k h v = Some t) \<Longrightarrow>
   read_items k h kvs = Some kts"
  by (induction kvs arbitrary: kts) (auto split: option.splits)

lemma read_card_fuel:
  "read n h v = Some t \<Longrightarrow> read (card (reach h v)) h v = Some t"
proof (induction n arbitrary: v t)
  case 0
  then show ?case by (cases v) auto
next
  case (Suc n)
  show ?case
  proof (cases v)
    case (HRef a)
    from Suc.prems HRef have r: "read (Suc n) h (HRef a) = Some t" by simp
    then have a: "a < length h" by (rule read_Ref_bound)
    have "a \<in> reach h (HRef a)" by (rule reach.root) simp
    with finite_reach [OF r] have "card (reach h (HRef a)) \<noteq> 0" by auto
    then obtain k where k: "card (reach h (HRef a)) = Suc k" by (cases "card (reach h (HRef a))") auto
    have lift: "read k h c = Some tc"
      if "c \<in> set (refs_of (h ! a))" "read n h c = Some tc" for c tc
    proof -
      from card_reach_child [OF r that(1)] k have "card (reach h c) \<le> k" by simp
      with Suc.IH [OF that(2)] show ?thesis by (rule read_fuel_mono(1))
    qed
    show ?thesis
    proof (cases "h ! a")
      case (HList vs)
      with r a obtain ts where ts: "read_list n h vs = Some ts" "t = PList ts" by auto
      have "read_list k h vs = Some ts"
      proof (rule read_list_lift [OF ts(1)])
        fix c tc assume "c \<in> set vs" "read n h c = Some tc"
        with HList show "read k h c = Some tc" by (intro lift) simp_all
      qed
      with a HList ts(2) show ?thesis by (simp add: HRef k)
    next
      case (HDict kvs)
      with r a obtain kts where kts: "read_items n h kvs = Some kts" "t = PDict kts" by auto
      have "read_items k h kvs = Some kts"
      proof (rule read_items_lift [OF kts(1)])
        fix c tc assume "c \<in> set (map snd kvs)" "read n h c = Some tc"
        with HDict show "read k h c = Some tc" by (intro lift) simp_all
      qed
      with a HDict kts(2) show ?thesis by (simp add: HRef k)
    qed
  qed (use Suc.prems in auto)
qed

lemma read_tree_complete: "read n h v = Some t \<Longrightarrow> read_tree h v = Some t"
proof -
  assume r: "read n h v = Some t"
  from read_card_fuel [OF r] card_reach_bound [OF r] show ?thesis
    unfolding read_tree_def by (rule read_fuel_mono(1))
qed

lemma hstore_ok_Cons:
  "hstore_ok h ((k, v) # rest) = (read_tree h v \<noteq> None \<and> hstore_ok h rest)"
  by (simp add: hstore_ok_def)

lemma view_Cons: "view h ((k, v) # rest) = (k, tree_at h v) # view h rest"
  by (simp add: view_def)

lemma owned_Cons: "owned h ((k, v) # rest) = reach h v \<union> owned h rest"
  by (simp add: owned_def)

lemma tree_at_Some: "read_tree h v = Some t \<Longrightarrow> tree_at h v = t"
  by (simp add: tree_at_def)

lemma owned_bound: "hstore_ok h documents \<Longrightarrow> a \<in> owned h documents \<Longrightarrow> a < length h"
  by (auto simp: hstore_ok_def owned_def list_all_iff read_tree_def dest: reach_in_bounds)

lemma reach_tree_append:
  "read_tree h v = Some t \<Longrightarrow> reach (h @ ext) v = reach h v"
  by (rule reach_append) (auto simp: read_tree_def dest: reach_in_bounds)

lemma store_append:
  assumes "hstore_ok h documents"
  shows "hstore_ok (h @ ext) documents \<and> view (h @ ext) documents = view h documents
       \<and> owned (h @ ext) documents = owned h documents"
  using assms
proof (induction documents)
  case Nil
  show ?case by (simp add: hstore_ok_def view_def owned_def)
next
  case (Cons kv documents)
  obtain k v where kv: "kv = (k, v)" by (cases kv)
  from Cons.prems obtain t where t: "read_tree h v = Some t" and r: "hstore_ok h documents"
    by (auto simp: kv hstore_ok_Cons)
  from read_tree_append [OF t] have t': "read_tree (h @ ext) v = Some t" .
  from Cons.IH [OF r] t t' reach_tree_append [OF t] show ?case
    by (simp add: kv hstore_ok_Cons view_Cons owned_Cons tree_at_Some)
qed

lemma store_update:
  assumes "hstore_ok h documents" and "a \<notin> owned h documents"
  shows "hstore_ok (h[a := obj]) documents \<and> view (h[a := obj]) documents = view h documents
       \<and> owned (h[a := obj]) documents = owned h documents"
  using assms
proof (induction documents)
  case Nil
  show ?case by (simp add: hstore_ok_def view_def owned_def)
next
  case (Cons kv documents)
  obtain k v where kv: "kv = (k, v)" by (cases kv)
  from Cons.prems obtain t where t: "read_tree h v = Some t" and r: "hstore_ok h documents"
    by (auto simp: kv hstore_ok_Cons)
  from Cons.prems(2) have n: "a \<notin> reach h v" "a \<notin> owned h documents"
    by (simp_all add: kv owned_Cons)
  from read_tree_update [OF t n(1)] have t': "read_tree (h[a := obj]) v = Some t" .
  from Cons.IH [OF r n(2)] t t' reach_update [OF n(1)] show ?case
    by (simp add: kv hstore_ok_Cons view_Cons owned_Cons tree_at_Some)
qed

lemma deepcopy_h_tree:
  assumes "read_tree h v = Some t"
  shows "\<exists>h' c ext. deepcopy_h h v = Some (h', c) \<and> h' = h @ ext \<and> read_tree h' c = Some t
          \<and> (\<forall>a \<in> reach h' c. length h \<le> a \<and> a < length h')"
proof -
  obtain h' c where a: "alloc h t = (h', c)" by (cases "alloc h t")
  from alloc_extends(1) [OF a] obtain ext where "h' = h @ ext" by blast
  moreover have "deepcopy_h h v = Some (h', c)" using assms a by (simp add: deepcopy_h_def)
  moreover have "read_tree h' c = Some t" using a by (rule read_tree_alloc)
  moreover have "\<forall>a \<in> reach h' c. length h \<le> a \<and> a < length h'"
    using reach_alloc [OF a] by blast
  ultimately show ?thesis by blast
qed

lemma find_one_h_refines:
  "hstore_ok h documents \<Longrightarrow>
   abs_find_one (find_one_h h documents query) = Some (find_one (view h documents) query)"
proof (induction documents)
  case Nil
  show ?case by (simp add: abs_find_one_def view_def)
next
  case (Cons kv documents)
  obtain k v where kv: "kv = (k, v)" by (cases kv)
  from Cons.prems obtain t where t: "read_tree h v = Some t" and r: "hstore_ok h documents"
    by (auto simp: kv hstore_ok_Cons)
  from deepcopy_h_tree [OF t] obtain h' c where
    d: "deepcopy_h h v = Some (h', c)" "read_tree h' c = Some t" by blast
  show ?case
  proof (cases "matches_query t query")
    case (Inl e)
    then show ?thesis by (simp add: kv view_Cons t tree_at_Some abs_find_one_def)
  next
    case (Inr b)
    show ?thesis
    proof (cases b)
      case True
      with Inr d show ?thesis
        by (simp add: kv view_Cons t tree_at_Some abs_find_one_def deepcopy_def)
    next
      case False
      with Inr Cons.IH [OF r] show ?thesis by (simp add: kv view_Cons t tree_at_Some)
    qed
  qed
qed

lemma find_one_h_fresh:
  "hstore_ok h documents \<Longrightarrow> find_one_h h documents query = Some (Inr (h2, Some c)) \<Longrightarrow>
   (\<exists>ext. h2 = h @ ext) \<and> (\<forall>a \<in> reach h2 c. length h \<le> a \<and> a < length h2)"
proof (induction documents)
  case Nil
  then show ?case by simp
next
  case (Cons kv documents)
  obtain k v where kv: "kv = (k, v)" by (cases kv)
  from Cons.prems(1) obtain t where t: "read_tree h v = Some t" and r: "hstore_ok h documents"
    by (auto simp: kv hstore_ok_Cons)
  from deepcopy_h_tree [OF t] obtain h' c' ext where
    d: "deepcopy_h h v = Some (h', c')" "h' = h @ ext"
       "\<forall>a \<in> reach h' c'. length h \<le> a \<and> a < length h'" by blast
  show ?case
  proof (cases "matches_query t query")
    case (Inl e)
    with Cons.prems(2) show ?thesis by (simp add: kv t)
  next
    case (Inr b)
    show ?thesis
    proof (cases b)
      case True
      with Inr d Cons.prems(2) have "h2 = h'" "c = c'" by (simp_all add: kv t)
      with d show ?thesis by blast
    next
      case False
      with Inr Cons.prems(2) have "find_one_h h documents query = Some (Inr (h2, Some c))"
        by (simp add: kv t)
      from Cons.IH [OF r this] show ?thesis .
    qed
  qed
qed

lemma find_h_refines:
  "hstore_ok h documents \<Longrightarrow>
   abs_find (find_h h documents query) = Some (find (view h documents) query)
   \<and> (\<forall>h2 cs. find_h h documents query = Some (Inr (h2, cs)) \<longrightarrow>
         (\<exists>ext. h2 = h @ ext)
         \<and> (\<forall>c \<in> set cs. \<forall>a \<in> reach h2 c. length h \<le> a \<and> a < length h2))"
proof (induction documents arbitrary: h)
  case Nil
  show ?case by (simp add: abs_find_def view_def)
next
  case (Cons kv documents)
  obtain k v where kv: "kv = (k, v)" by (cases kv)
  from Cons.prems obtain t where t: "read_tree h v = Some t" and r: "hstore_ok h documents"
    by (auto simp: kv hstore_ok_Cons)
  show ?case
  proof (cases "matches_query t query")
    case (Inl e)
    then show ?thesis by (simp add: kv view_Cons t tree_at_Some abs_find_def)
  next
    case (Inr b)
    show ?thesis
    proof (cases b)
      case False
      with Inr Cons.IH [OF r] show ?thesis
        by (simp add: kv view_Cons t tree_at_Some split: sum.splits)
    next
      case True
      from deepcopy_h_tree [OF t] obtain h' c ext where
        d: "deepcopy_h h v = Some (h', c)" "h' = h @ ext" "read_tree h' c = Some t"
           "\<forall>a \<in> reach h' c. length h \<le> a \<and> a < length h'" by blast
      from store_append [OF r, of ext] d(2) have r': "hstore_ok h' documents"
        and v': "view h' documents = view h documents" by simp_all
      note ih = Cons.IH [OF r', of ]
      have step: "find_h h (kv # documents) query =
          (case find_h h' documents query of
             None \<Rightarrow> None
           | Some (Inl e) \<Rightarrow> Some (Inl e)
           | Some (Inr (h'', cs)) \<Rightarrow> Some (Inr (h'', c # cs)))"
        using Inr True d(1) by (simp add: kv t)
      have tree: "find (view h (kv # documents)) query =
          (case find (view h documents) query of
             Inl e \<Rightarrow> Inl e | Inr ds \<Rightarrow> Inr (t # ds))"
        using Inr True by (simp add: kv view_Cons t tree_at_Some deepcopy_def split: sum.splits)
      show ?thesis
      proof (cases "find_h h' documents query")
        case None
        with ih show ?thesis by (simp add: abs_find_def)
      next
        case (Some res)
        show ?thesis
        proof (cases res)
          case (Inl e)
          with Some ih have "find (view h documents) query = Inl e"
            by (simp add: abs_find_def v')
          with Some Inl show ?thesis by (simp add: step tree abs_find_def)
        next
          case (Inr hc)
          obtain h'' cs where hc: "hc = (h'', cs)" by (cases hc)
          from ih Some Inr hc obtain ext' where
            e: "h'' = h' @ ext'"
            and fr: "\<forall>c \<in> set cs. \<forall>a \<in> reach h'' c. length h' \<le> a \<and> a < length h''"
            by blast
          from ih Some Inr hc obtain ts where
            ts: "read_list (length h'') h'' cs = Some ts" "find (view h documents) query = Inr ts"
            by (auto simp: abs_find_def v' split: option.splits)
          have c'': "read_tree h'' c = Some t" unfolding e using d(3) by (rule read_tree_append)
          have rc: "reach h'' c = reach h' c" unfolding e using d(3) by (rule reach_tree_append)
          have 1: "abs_find (find_h h (kv # documents) query)
                   = Some (find (view h (kv # documents)) query)"
            using c'' ts by (simp add: step tree Some Inr hc abs_find_def read_tree_def)
          have 2: "h'' = h @ (ext @ ext')" using e d(2) by simp
          have 3: "\<forall>c' \<in> set (c # cs). \<forall>a \<in> reach h'' c'. length h \<le> a \<and> a < length h''"
          proof (intro ballI)
            fix c' a assume c': "c' \<in> set (c # cs)" and a: "a \<in> reach h'' c'"
            show "length h \<le> a \<and> a < length h''"
            proof (cases "c' = c")
              case True
              with a rc d(4) have "length h \<le> a \<and> a < length h'" by simp
              then show ?thesis using e by simp
            next
              case False
              with c' have "c' \<in> set cs" by simp
              with fr a have "length h' \<le> a \<and> a < length h''" by blast
              then show ?thesis using d(2) by simp
            qed
          qed
          from 1 2 3 show ?thesis by (auto simp: step Some Inr hc)
        qed
      qed
    qed
  qed
qed

lemma read_items_map_of:
  "read_items n h kvs = Some kts \<Longrightarrow>
   map_of kts k = (case map_of kvs k of None \<Rightarrow> None | Some v \<Rightarrow> read n h v)"
  by (induction kvs arbitrary: kts) (auto split: option.splits)

lemma read_scalar:
  "scalar_of i = Some k \<Longrightarrow> read n h i = Some k \<and> hashable k"
  by (cases i) auto

lemma read_ref_unhashable:
  "read n h (HRef b) = Some t \<Longrightarrow> \<not> hashable t"
  by (cases n) (auto split: if_splits hobj.splits)

lemma getitem_id_refines:
  assumes "read_tree h D = Some t"
  shows "case getitem_id_h (h @ ext) D of
           Inl e \<Rightarrow> getitem_id t = Inl e
         | Inr i \<Rightarrow> (\<exists>ti. getitem_id t = Inr ti
                     \<and> (case scalar_of i of None \<Rightarrow> \<not> hashable ti
                        | Some k \<Rightarrow> hashable ti \<and> k = ti))"
proof (cases D)
  case (HRef a)
  from assms HRef obtain n where n: "length h = Suc n" and a: "a < length h"
    by (cases "length h") (auto simp: read_tree_def split: if_splits)
  show ?thesis
  proof (cases "h ! a")
    case (HList vs)
    with assms HRef n a obtain ts where "t = PList ts" by (auto simp: read_tree_def)
    with HList HRef a show ?thesis by (simp add: getitem_id_h_def getitem_id_def nth_append)
  next
    case (HDict kvs)
    with assms HRef n a obtain kts where
      kts: "t = PDict kts" "read_items n h kvs = Some kts" by (auto simp: read_tree_def)
    note m = read_items_map_of [OF kts(2), of "''_id''"]
    show ?thesis
    proof (cases "map_of kvs ''_id''")
      case None
      with m HDict HRef a kts(1) show ?thesis
        by (simp add: getitem_id_h_def getitem_id_def nth_append)
    next
      case (Some i)
      then have "(''_id'', i) \<in> set kvs" by (rule map_of_SomeD)
      from read_items_member [OF kts(2) this] obtain ti where ti: "read n h i = Some ti" by blast
      with m Some have g: "getitem_id t = Inr ti" by (simp add: kts(1) getitem_id_def)
      have "case scalar_of i of None \<Rightarrow> \<not> hashable ti | Some k \<Rightarrow> hashable ti \<and> k = ti"
      proof (cases "scalar_of i")
        case None
        then obtain b where "i = HRef b" by (cases i) auto
        with ti read_ref_unhashable show ?thesis using None by auto
      next
        case (Some k)
        from read_scalar [OF this, of n h] ti show ?thesis using Some by simp
      qed
      with g Some HDict HRef a show ?thesis by (simp add: getitem_id_h_def nth_append)
    qed
  qed
qed (use assms in \<open>auto simp: read_tree_def getitem_id_h_def getitem_id_def\<close>)

lemma view_store_doc:
  "view h (store_doc k c documents) = store_doc k (tree_at h c) (view h documents)"
  by (induction documents) (auto simp: view_def)

lemma hstore_ok_store_doc:
  "hstore_ok h documents \<Longrightarrow> read_tree h c \<noteq> None \<Longrightarrow> hstore_ok h (store_doc k c documents)"
  by (induction documents) (auto simp: hstore_ok_def)

lemma snd_store_doc:
  "kv \<in> set (store_doc k c documents) \<Longrightarrow> kv \<in> set documents \<or> snd kv = c"
  by (induction documents) (auto split: if_splits)

lemma owned_store_doc:
  "owned h (store_doc k c documents) \<subseteq> owned h documents \<union> reach h c"
  unfolding owned_def using snd_store_doc by fastforce

lemma insert_one_h_refines:
  assumes "hstore_ok h documents" and "read_tree h D = Some t"
  shows "abs_insert (insert_one_h h documents D) = Some (insert_one (view h documents) t)
       \<and> (\<forall>h1 documents1. insert_one_h h documents D = Some (Inr (h1, documents1)) \<longrightarrow>
             hstore_ok h1 documents1 \<and> (\<exists>ext. h1 = h @ ext)
             \<and> owned h1 documents1 \<subseteq> owned h documents \<union> {a. length h \<le> a \<and> a < length h1})"
proof -
  from deepcopy_h_tree [OF assms(2)] obtain h' c ext where
    d: "deepcopy_h h D = Some (h', c)" "h' = h @ ext" "read_tree h' c = Some t"
       "\<forall>a \<in> reach h' c. length h \<le> a \<and> a < length h'" by blast
  from store_append [OF assms(1), of ext] d(2) have ok': "hstore_ok h' documents"
    and v': "view h' documents = view h documents"
    and o': "owned h' documents = owned h documents" by simp_all
  have res: "insert_one_h h documents D =
      Some (case getitem_id_h h' D of
              Inl e \<Rightarrow> Inl e
            | Inr i \<Rightarrow> (case scalar_of i of
                          None \<Rightarrow> Inl TypeError
                        | Some k \<Rightarrow> Inr (h', store_doc k c documents)))"
    by (simp add: insert_one_h_def d(1))
  note g = getitem_id_refines [OF assms(2), of ext, folded d(2)]
  show ?thesis
  proof (cases "getitem_id_h h' D")
    case (Inl e)
    with g have "getitem_id t = Inl e" by simp
    with Inl show ?thesis by (simp add: res abs_insert_def insert_one_def)
  next
    case (Inr i)
    with g obtain ti where ti: "getitem_id t = Inr ti"
      "case scalar_of i of None \<Rightarrow> \<not> hashable ti | Some k \<Rightarrow> hashable ti \<and> k = ti" by auto
    show ?thesis
    proof (cases "scalar_of i")
      case None
      with ti Inr show ?thesis by (simp add: res abs_insert_def insert_one_def)
    next
      case (Some k)
      with ti have k: "hashable ti" "k = ti" by simp_all
      have r: "insert_one_h h documents D = Some (Inr (h', store_doc k c documents))"
        by (simp add: res Inr Some)
      have 1: "abs_insert (insert_one_h h documents D) = Some (insert_one (view h documents) t)"
        using ti(1) k d(3)
        by (simp add: r abs_insert_def insert_one_def view_store_doc tree_at_Some v' deepcopy_def)
      have 2: "hstore_ok h' (store_doc k c documents)"
        using ok' d(3) by (intro hstore_ok_store_doc) simp_all
      have 3: "owned h' (store_doc k c documents)
                 \<subseteq> owned h documents \<union> {a. length h \<le> a \<and> a < length h'}"
        using owned_store_doc [of h' k c documents] d(4) o' by auto
      from 1 2 3 d(2) show ?thesis by (auto simp: r)
    qed
  qed
qed

lemma reads_after_update:
  assumes "hstore_ok h documents" and "a \<notin> owned h documents"
  shows "hstore_ok (h[a := obj]) documents
       \<and> abs_find_one (find_one_h (h[a := obj]) documents query)
           = Some (find_one (view h documents) query)
       \<and> abs_find (find_h (h[a := obj]) documents query)
           = Some (find (view h documents) query)"
proof -
  from store_update [OF assms, of obj] have ok: "hstore_ok (h[a := obj]) documents"
    and v: "view (h[a := obj]) documents = view h documents" by simp_all
  from find_one_h_refines [OF ok, of query] find_h_refines [OF ok, of query] v ok
  show ?thesis by simp
qed

text \<open>
  C7. On the heap, with a store in order: \<^verbatim>\<open>find_one\<close> and \<^verbatim>\<open>find\<close> return, and
  what they return stands for the trees that the store holds (structural equality with
  the stored documents). No object of a retrieved value is owned by the store, and
  after any change of such an object every read gives what it gave before. Inserting a
  tree-shaped document stores a structurally equal copy; if the document shared no
  object with the store before, it shares none after, and after any change of an
  object of the document every read gives the stored copy as it was. The store stays in
  order through all of this, and every value that is a finite tree is read as one.
\<close>

theorem copy_isolation:
  assumes "hstore_ok h documents"
  shows "abs_find_one (find_one_h h documents query) = Some (find_one (view h documents) query)
       \<and> abs_find (find_h h documents query) = Some (find (view h documents) query)
       \<and> (find_one_h h documents query = Some (Inr (h2, Some c)) \<and> a \<in> reach h2 c \<longrightarrow>
            a \<notin> owned h2 documents \<and> hstore_ok (h2[a := obj]) documents
            \<and> abs_find_one (find_one_h (h2[a := obj]) documents query')
                = Some (find_one (view h documents) query')
            \<and> abs_find (find_h (h2[a := obj]) documents query')
                = Some (find (view h documents) query'))
       \<and> (find_h h documents query = Some (Inr (h3, cs)) \<and> c' \<in> set cs \<and> a' \<in> reach h3 c' \<longrightarrow>
            a' \<notin> owned h3 documents \<and> hstore_ok (h3[a' := obj]) documents
            \<and> abs_find_one (find_one_h (h3[a' := obj]) documents query')
                = Some (find_one (view h documents) query')
            \<and> abs_find (find_h (h3[a' := obj]) documents query')
                = Some (find (view h documents) query'))
       \<and> (find_one_h h documents query = Some (Inr (h2, r)) \<longrightarrow>
            hstore_ok h2 documents \<and> view h2 documents = view h documents)
       \<and> (find_h h documents query = Some (Inr (h3, cs)) \<longrightarrow>
            hstore_ok h3 documents \<and> view h3 documents = view h documents)
       \<and> (read_tree h D = Some t \<longrightarrow>
            abs_insert (insert_one_h h documents D) = Some (insert_one (view h documents) t))
       \<and> (read_tree h D = Some t \<and> insert_one_h h documents D = Some (Inr (h1, documents1))
            \<longrightarrow> hstore_ok h1 documents1)
       \<and> (read n h D = Some t \<longrightarrow> read_tree h D = Some t)
       \<and> (read_tree h D = Some t \<and> reach h D \<inter> owned h documents = {}
            \<and> insert_one_h h documents D = Some (Inr (h1, documents1)) \<and> b \<in> reach h1 D \<longrightarrow>
            b \<notin> owned h1 documents1 \<and> hstore_ok (h1[b := obj]) documents1
            \<and> insert_one (view h documents) t = Inr (view h1 documents1)
            \<and> abs_find_one (find_one_h (h1[b := obj]) documents1 query')
                = Some (find_one (view h1 documents1) query')
            \<and> abs_find (find_h (h1[b := obj]) documents1 query')
                = Some (find (view h1 documents1) query'))"
proof -
  note r1 = find_one_h_refines [OF assms, of query]
  note r2 = find_h_refines [OF assms, of query]
  have f1: "a \<notin> owned h2 documents \<and> hstore_ok (h2[a := obj]) documents
            \<and> abs_find_one (find_one_h (h2[a := obj]) documents query')
                = Some (find_one (view h documents) query')
            \<and> abs_find (find_h (h2[a := obj]) documents query')
                = Some (find (view h documents) query')"
    if "find_one_h h documents query = Some (Inr (h2, Some c)) \<and> a \<in> reach h2 c"
  proof -
    from find_one_h_fresh [OF assms] that obtain ext where
      e: "h2 = h @ ext" and fr: "length h \<le> a" by blast
    from store_append [OF assms, of ext] e have ok: "hstore_ok h2 documents"
      and v: "view h2 documents = view h documents"
      and o: "owned h2 documents = owned h documents" by simp_all
    from owned_bound [OF assms] fr o have n: "a \<notin> owned h2 documents" by fastforce
    from reads_after_update [OF ok n, of obj query'] n v show ?thesis by simp
  qed
  have f2: "a' \<notin> owned h3 documents \<and> hstore_ok (h3[a' := obj]) documents
            \<and> abs_find_one (find_one_h (h3[a' := obj]) documents query')
                = Some (find_one (view h documents) query')
            \<and> abs_find (find_h (h3[a' := obj]) documents query')
                = Some (find (view h documents) query')"
    if "find_h h documents query = Some (Inr (h3, cs)) \<and> c' \<in> set cs \<and> a' \<in> reach h3 c'"
  proof -
    from r2 that obtain ext where e: "h3 = h @ ext" and fr: "length h \<le> a'" by blast
    from store_append [OF assms, of ext] e have ok: "hstore_ok h3 documents"
      and v: "view h3 documents = view h documents"
      and o: "owned h3 documents = owned h documents" by simp_all
    from owned_bound [OF assms] fr o have n: "a' \<notin> owned h3 documents" by fastforce
    from reads_after_update [OF ok n, of obj query'] n v show ?thesis by simp
  qed
  have k1: "hstore_ok h2 documents \<and> view h2 documents = view h documents"
    if "find_one_h h documents query = Some (Inr (h2, r))"
  proof (cases r)
    case None
    with that have "h2 = h" by (induction documents) (auto split: option.splits sum.splits if_splits prod.splits)
    with assms show ?thesis by simp
  next
    case (Some c0)
    from find_one_h_fresh [OF assms] that Some obtain ext where "h2 = h @ ext" by blast
    with store_append [OF assms, of ext] show ?thesis by simp
  qed
  have k2: "hstore_ok h3 documents \<and> view h3 documents = view h documents"
    if "find_h h documents query = Some (Inr (h3, cs))"
  proof -
    from r2 that obtain ext where "h3 = h @ ext" by blast
    with store_append [OF assms, of ext] show ?thesis by simp
  qed
  have k3: "hstore_ok h1 documents1"
    if "read_tree h D = Some t \<and> insert_one_h h documents D = Some (Inr (h1, documents1))"
    using insert_one_h_refines [OF assms, of D t] that by blast
  have k4: "read_tree h D = Some t" if "read n h D = Some t"
    using that by (rule read_tree_complete)
  have i1: "abs_insert (insert_one_h h documents D) = Some (insert_one (view h documents) t)"
    if "read_tree h D = Some t"
    using insert_one_h_refines [OF assms that] by blast
  have i2: "b \<notin> owned h1 documents1 \<and> hstore_ok (h1[b := obj]) documents1
            \<and> insert_one (view h documents) t = Inr (view h1 documents1)
            \<and> abs_find_one (find_one_h (h1[b := obj]) documents1 query')
                = Some (find_one (view h1 documents1) query')
            \<and> abs_find (find_h (h1[b := obj]) documents1 query')
                = Some (find (view h1 documents1) query')"
    if "read_tree h D = Some t \<and> reach h D \<inter> owned h documents = {}
            \<and> insert_one_h h documents D = Some (Inr (h1, documents1)) \<and> b \<in> reach h1 D"
  proof -
    from that have D: "read_tree h D = Some t" and sep: "reach h D \<inter> owned h documents = {}"
      and ins: "insert_one_h h documents D = Some (Inr (h1, documents1))"
      and b: "b \<in> reach h1 D" by simp_all
    from insert_one_h_refines [OF assms D] ins obtain ext where
      ok1: "hstore_ok h1 documents1" and e: "h1 = h @ ext"
      and o1: "owned h1 documents1 \<subseteq> owned h documents \<union> {a. length h \<le> a \<and> a < length h1}"
      and ab: "abs_insert (insert_one_h h documents D) = Some (insert_one (view h documents) t)"
      by blast
    from b have bD: "b \<in> reach h D" unfolding e by (simp add: reach_tree_append [OF D])
    then have "b < length h" using D by (auto simp: read_tree_def dest: reach_in_bounds)
    with bD sep o1 have n: "b \<notin> owned h1 documents1" by auto
    from ab ins have v: "insert_one (view h documents) t = Inr (view h1 documents1)"
      by (simp add: abs_insert_def)
    from reads_after_update [OF ok1 n, of obj query'] n v show ?thesis by simp
  qed
  from r1 r2 f1 f2 k1 k2 i1 k3 k4 i2 show ?thesis by blast
qed

theorem copy_isolation_witness:
  "hstore_ok caller_heap []
   \<and> read_tree caller_heap (HRef 1) = Some chess_club
   \<and> reach caller_heap (HRef 1) \<inter> owned caller_heap [] = {}
   \<and> insert_one_h caller_heap [] (HRef 1)
       = Some (Inr (heap_after_insert, [(PStr ''Chess Club'', HRef 3)]))
   \<and> 0 \<in> reach heap_after_insert (HRef 1)
   \<and> abs_find_one (find_one_h (heap_after_insert[0 := HList []])
         [(PStr ''Chess Club'', HRef 3)] []) = Some (Inr (Some chess_club))
   \<and> hstore_ok heap_after_insert [(PStr ''Chess Club'', HRef 3)]
   \<and> find_one_h heap_after_insert [(PStr ''Chess Club'', HRef 3)] []
       = Some (Inr (heap_after_find, Some (HRef 5)))
   \<and> find_h heap_after_insert [(PStr ''Chess Club'', HRef 3)] []
       = Some (Inr (heap_after_find, [HRef 5]))
   \<and> 4 \<in> reach heap_after_find (HRef 5)
   \<and> abs_find_one (find_one_h (heap_after_find[4 := HList []])
         [(PStr ''Chess Club'', HRef 3)] []) = Some (Inr (Some chess_club))"
proof -
  have ok0: "hstore_ok caller_heap []" by (simp add: hstore_ok_def)
  have rd: "read_tree caller_heap (HRef 1) = Some chess_club" by code_simp
  have sep: "reach caller_heap (HRef 1) \<inter> owned caller_heap [] = {}" by (simp add: owned_def)
  have ins: "insert_one_h caller_heap [] (HRef 1)
       = Some (Inr (heap_after_insert, [(PStr ''Chess Club'', HRef 3)]))" by code_simp
  have b: "0 \<in> reach heap_after_insert (HRef 1)"
  proof (rule reach.step [where a = 1])
    show "1 \<in> reach heap_after_insert (HRef 1)" by (rule reach.root) simp
    show "1 < length heap_after_insert" by (simp add: heap_after_insert_def caller_heap_def)
    show "HRef 0 \<in> set (refs_of (heap_after_insert ! 1))"
      by (simp add: heap_after_insert_def caller_heap_def)
  qed
  have ok1: "hstore_ok heap_after_insert [(PStr ''Chess Club'', HRef 3)]" by code_simp
  have f1: "find_one_h heap_after_insert [(PStr ''Chess Club'', HRef 3)] []
       = Some (Inr (heap_after_find, Some (HRef 5)))" by code_simp
  have f2: "find_h heap_after_insert [(PStr ''Chess Club'', HRef 3)] []
       = Some (Inr (heap_after_find, [HRef 5]))" by code_simp
  have a: "4 \<in> reach heap_after_find (HRef 5)"
  proof (rule reach.step [where a = 5])
    show "5 \<in> reach heap_after_find (HRef 5)" by (rule reach.root) simp
    show "5 < length heap_after_find"
      by (simp add: heap_after_find_def heap_after_insert_def caller_heap_def)
    show "HRef 4 \<in> set (refs_of (heap_after_find ! 5))"
      by (simp add: heap_after_find_def heap_after_insert_def caller_heap_def)
  qed
  have v: "find_one (view heap_after_insert [(PStr ''Chess Club'', HRef 3)]) []
       = Inr (Some chess_club)" by code_simp
  from copy_isolation [OF ok0, where D = "HRef 1" and t = chess_club and n = 2
         and ?h1.0 = heap_after_insert and ?documents1.0 = "[(PStr ''Chess Club'', HRef 3)]"
         and b = 0 and obj = "HList []" and query' = "[]"]
       rd sep ins b
  have c1: "abs_find_one (find_one_h (heap_after_insert[0 := HList []])
         [(PStr ''Chess Club'', HRef 3)] [])
        = Some (find_one (view heap_after_insert [(PStr ''Chess Club'', HRef 3)]) [])"
    by blast
  from copy_isolation [OF ok1, where query = "[]" and ?h2.0 = heap_after_find
         and c = "HRef 5" and r = "Some (HRef 5)" and a = 4 and obj = "HList []" and query' = "[]"
         and ?h3.0 = heap_after_find and cs = "[HRef 5]" and c' = "HRef 5" and a' = 4]
       f1 f2 a
  have c2: "abs_find_one (find_one_h (heap_after_find[4 := HList []])
         [(PStr ''Chess Club'', HRef 3)] [])
        = Some (find_one (view heap_after_insert [(PStr ''Chess Club'', HRef 3)]) [])"
    by blast
  from ok0 rd sep ins b ok1 f1 f2 a c1 c2 show ?thesis by (simp only: v)
qed

end
